theory Spec2Isabelle
  imports Main
begin

section \<open>Values and strings\<close>

text \<open>
  The validators of \<^verbatim>\<open>src/index.ts\<close> take a value of type \<^verbatim>\<open>unknown\<close>. The
  constructors below are the runtime categories that \<^verbatim>\<open>typeof\<close>, \<^verbatim>\<open>===\<close> and
  \<^verbatim>\<open>Array.isArray\<close> can tell apart. \<open>VObject\<close> is an ordinary object with data
  properties. \<open>VRevokedProxy\<close> is a \<^verbatim>\<open>Proxy\<close> of a plain object after its
  \<^verbatim>\<open>revoke()\<close>: \<^verbatim>\<open>typeof\<close> gives \<^verbatim>\<open>'object'\<close> and \<^verbatim>\<open>===\<close> compares it by
  identity, but every operation that looks inside it (\<^verbatim>\<open>Array.isArray\<close>, a property
  read) throws a \<^verbatim>\<open>TypeError\<close>. A string is a list of code units; the code only ever
  distinguishes the ASCII characters \<^verbatim>\<open>:\<close>, \<^verbatim>\<open>.\<close>, the digits and the hexadecimal
  letters.
\<close>

datatype jsvalue =
    VBoolean bool
  | VNull
  | VUndefined
  | VNumber int
  | VBigInt int
  | VSymbol
  | VFunction
  | VObject "(string \<times> jsvalue) list"
  | VArray "jsvalue list"
  | VRevokedProxy
  | VString string

datatype js_error = TypeError

section \<open>Regular expressions\<close>

text \<open>
  The two patterns of the source use character classes, literal characters,
  concatenation, alternation and bounded repetition \<^verbatim>\<open>{lo,hi}\<close>, between the anchors
  \<^verbatim>\<open>^\<close> and \<^verbatim>\<open>$\<close>. Capturing groups do not change what \<^verbatim>\<open>test\<close> returns.
  A character class is the list of its ranges.
\<close>

datatype regex =
    Cls "(char \<times> char) list"
  | Lit char
  | Seq regex regex
  | Alt regex regex
  | Rep nat nat regex

definition in_range :: "char \<Rightarrow> char \<times> char \<Rightarrow> bool" where
  "in_range c r = ((of_char (fst r) :: nat) \<le> of_char c \<and> (of_char c :: nat) \<le> of_char (snd r))"

definition in_class :: "(char \<times> char) list \<Rightarrow> char \<Rightarrow> bool" where
  "in_class rs c = list_ex (in_range c) rs"

text \<open>
  A backtracking matcher: \<open>rmatch r s\<close> lists, in the order a backtracking engine tries
  them, the suffixes of \<open>s\<close> left after \<open>r\<close> has matched a prefix of \<open>s\<close>. A
  repetition is greedy: it tries one more iteration before it tries to stop.
\<close>

fun rep :: "(string \<Rightarrow> string list) \<Rightarrow> nat \<Rightarrow> nat \<Rightarrow> string \<Rightarrow> string list" where
  "rep m lo 0 s = (if lo = 0 then [s] else [])"
| "rep m lo (Suc hi) s =
     concat (map (rep m (lo - 1) hi) (m s)) @ (if lo = 0 then [s] else [])"

primrec rmatch :: "regex \<Rightarrow> string \<Rightarrow> string list" where
  "rmatch (Cls rs) = (\<lambda>s. case s of [] \<Rightarrow> [] | x # xs \<Rightarrow> if in_class rs x then [xs] else [])"
| "rmatch (Lit c) = (\<lambda>s. case s of [] \<Rightarrow> [] | x # xs \<Rightarrow> if x = c then [xs] else [])"
| "rmatch (Seq a b) = (\<lambda>s. concat (map (rmatch b) (rmatch a s)))"
| "rmatch (Alt a b) = (\<lambda>s. rmatch a s @ rmatch b s)"
| "rmatch (Rep lo hi r) = rep (rmatch r) lo hi"

text \<open>
  \<^verbatim>\<open>/^r$/.test(s)\<close>: without the \<^verbatim>\<open>m\<close> flag \<^verbatim>\<open>^\<close> matches only at the start of
  the input and \<^verbatim>\<open>$\<close> only at its end, so the test succeeds when some way of matching
  \<open>r\<close> from the start leaves nothing.
\<close>

definition test :: "regex \<Rightarrow> string \<Rightarrow> bool" where
  "test r s = list_ex (\<lambda>t. t = []) (rmatch r s)"

text \<open>\<^verbatim>\<open>const ipPair = /^[0-9A-Fa-f]{1,4}$/\<close>\<close>

definition ipPair :: regex where
  "ipPair = Rep 1 4 (Cls [(CHR ''0'', CHR ''9''), (CHR ''A'', CHR ''F''), (CHR ''a'', CHR ''f'')])"

text \<open>
  \<^verbatim>\<open>((25[0-5])|(2[0-4][0-9])|(1[0-9]{2})|([1-9][0-9])|[0-9])\<close>, the group that
  \<^verbatim>\<open>ipV4Pattern\<close> uses for each of the four fields.
\<close>

definition octet :: regex where
  "octet =
     Alt (Seq (Lit CHR ''2'') (Seq (Lit CHR ''5'') (Cls [(CHR ''0'', CHR ''5'')])))
    (Alt (Seq (Lit CHR ''2'') (Seq (Cls [(CHR ''0'', CHR ''4'')]) (Cls [(CHR ''0'', CHR ''9'')])))
    (Alt (Seq (Lit CHR ''1'') (Rep 2 2 (Cls [(CHR ''0'', CHR ''9'')])))
    (Alt (Seq (Cls [(CHR ''1'', CHR ''9'')]) (Cls [(CHR ''0'', CHR ''9'')]))
         (Cls [(CHR ''0'', CHR ''9'')]))))"

text \<open>\<^verbatim>\<open>const ipV4Pattern = /^(octet)(\.(octet)){3}$/u\<close>\<close>

definition ipV4Pattern :: regex where
  "ipV4Pattern = Seq octet (Rep 3 3 (Seq (Lit CHR ''.'') octet))"

section \<open>Array and string primitives\<close>

text \<open>
  \<^verbatim>\<open>String.prototype.split\<close> with a one-character separator: the fields between the
  separators, in order. The result is never empty: a string with no separator, the empty
  string included, gives one field.
\<close>

fun js_split :: "char \<Rightarrow> string \<Rightarrow> string list" where
  "js_split c [] = [[]]"
| "js_split c (x # xs) =
     (if x = c then [] # js_split c xs
      else (case js_split c xs of [] \<Rightarrow> [[x]] | p # ps \<Rightarrow> (x # p) # ps))"

text \<open>
  \<^verbatim>\<open>a[0]\<close> and \<^verbatim>\<open>a[a.length - 1]\<close> are \<^verbatim>\<open>undefined\<close> on an empty array, and
  \<^verbatim>\<open>a.pop()\<close> returns \<^verbatim>\<open>undefined\<close> there and leaves the array empty;
  \<^verbatim>\<open>undefined\<close> is \<open>None\<close>.
\<close>

definition first_elem :: "'a list \<Rightarrow> 'a option" where
  "first_elem xs = (case xs of [] \<Rightarrow> None | x # _ \<Rightarrow> Some x)"

definition last_elem :: "'a list \<Rightarrow> 'a option" where
  "last_elem xs = (if xs = [] then None else Some (last xs))"

definition shift :: "'a list \<Rightarrow> 'a list" where
  "shift xs = tl xs"

definition pop :: "'a list \<Rightarrow> 'a option \<times> 'a list" where
  "pop xs = (last_elem xs, butlast xs)"

text \<open>\<^verbatim>\<open>a.indexOf(y)\<close>: the first index holding \<open>y\<close>, or \<open>-1\<close>.\<close>

fun indexOf :: "'a list \<Rightarrow> 'a \<Rightarrow> int" where
  "indexOf [] y = - 1"
| "indexOf (x # xs) y =
     (if x = y then 0 else (let i = indexOf xs y in if i < 0 then - 1 else i + 1))"

text \<open>\<^verbatim>\<open>a.slice(i, j)\<close> and \<^verbatim>\<open>a.slice(i)\<close> for indices that are not negative.\<close>

definition slice :: "'a list \<Rightarrow> int \<Rightarrow> int \<Rightarrow> 'a list" where
  "slice xs i j = drop (nat i) (take (nat j) xs)"

definition slice_from :: "'a list \<Rightarrow> int \<Rightarrow> 'a list" where
  "slice_from xs i = drop (nat i) xs"

text \<open>The nullish coalescing \<^verbatim>\<open>x ?? d\<close>.\<close>

definition nullish :: "'a option \<Rightarrow> 'a \<Rightarrow> 'a" where
  "nullish x d = (case x of None \<Rightarrow> d | Some y \<Rightarrow> y)"

section \<open>The validator\<close>

text \<open>
  \<^verbatim>\<open>parsePossibleIpString\<close> returns an array of one array (no compaction found) or of
  two (the parts before the first empty part, and \<^verbatim>\<open>'0'\<close> followed by the parts
  after it).
\<close>

definition parsePossibleIpString :: "string \<Rightarrow> string list list" where
  "parsePossibleIpString value =
     (let parts = js_split CHR '':'' value;
          parts = (if first_elem parts = Some [] then shift parts else parts);
          parts = (if last_elem parts = Some [] then snd (pop parts) else parts);
          sep = indexOf parts []
      in if sep \<ge> 0 then [slice parts 0 sep, ''0'' # slice_from parts (sep + 1)]
         else [parts])"

definition isValidFullIp :: "string list \<Rightarrow> bool" where
  "isValidFullIp value0 =
     (let (lastv, value) = pop value0
      in if test ipV4Pattern (nullish lastv [])
         then length value = 6 \<and> list_all (test ipPair) value
         else length value = 7 \<and> list_all (test ipPair) value \<and> test ipPair (nullish lastv []))"

text \<open>
  \<^verbatim>\<open>isValidCompactIp\<close> destructures its argument as \<^verbatim>\<open>[left, right]\<close>. On an array
  shorter than two, \<^verbatim>\<open>right\<close> is \<^verbatim>\<open>undefined\<close> and \<^verbatim>\<open>right.pop()\<close> throws.
\<close>

definition isValidCompactIp :: "string list list \<Rightarrow> js_error + bool" where
  "isValidCompactIp parts =
     (case parts of
        left # right0 # _ \<Rightarrow>
          (let (lastv, right) = pop right0
           in if test ipV4Pattern (nullish lastv [])
              then Inr (length left + length right \<le> 6 \<and>
                        list_all (test ipPair) left \<and> list_all (test ipPair) right)
              else Inr (length left + length right \<le> 7 \<and>
                        list_all (test ipPair) left \<and> list_all (test ipPair) right \<and>
                        test ipPair (nullish lastv [])))
      | _ \<Rightarrow> Inl TypeError)"

definition isValidIp :: "jsvalue \<Rightarrow> js_error + bool" where
  "isValidIp v =
     (if v = VString ''::'' then Inr True
      else (case v of
              VString value \<Rightarrow>
                (let parts = parsePossibleIpString value
                 in if length parts = 1 then Inr (isValidFullIp (parts ! 0))
                    else isValidCompactIp parts)
            | _ \<Rightarrow> Inr False))"

subsection \<open>The IPv4 entry point\<close>

text \<open>
  The IPv4 validator is the checker of the last line of \<^verbatim>\<open>src/index.ts\<close>,
  \<^verbatim>\<open>value => z.string().regex(ipV4Pattern).safeParse(value).success\<close>; the
  specification calls it \<^verbatim>\<open>isValidIPv4\<close>. It runs in the zod library (version 3, the
  one whose string schema has the \<^verbatim>\<open>ip\<close> check that the file also calls), which
  \<^verbatim>\<open>src/index.ts\<close> imports. \<^verbatim>\<open>safeParse\<close> first classifies the value with zod's
  \<^verbatim>\<open>getParsedType\<close>: a switch on \<^verbatim>\<open>typeof\<close> which, for \<^verbatim>\<open>'object'\<close>, asks
  \<^verbatim>\<open>Array.isArray(data)\<close>, then \<^verbatim>\<open>data === null\<close>, then whether
  \<^verbatim>\<open>data.then\<close> and \<^verbatim>\<open>data.catch\<close> are functions. Nothing in
  \<^verbatim>\<open>safeParse\<close> catches what these throw. (A number is \<^verbatim>\<open>nan\<close> or
  \<^verbatim>\<open>number\<close>, and an object may also be a map, a set or a date; none of these is
  \<^verbatim>\<open>string\<close>.)
\<close>

datatype zod_parsed_type =
    ZString | ZNumber | ZBoolean | ZFunction | ZBigint | ZSymbol | ZUndefined
  | ZNull | ZArray | ZPromise | ZObject

definition has_method :: "(string \<times> jsvalue) list \<Rightarrow> string \<Rightarrow> bool" where
  "has_method props k = (map_of props k = Some VFunction)"

fun getParsedType :: "jsvalue \<Rightarrow> js_error + zod_parsed_type" where
  "getParsedType VUndefined = Inr ZUndefined"
| "getParsedType (VString _) = Inr ZString"
| "getParsedType (VNumber _) = Inr ZNumber"
| "getParsedType (VBoolean _) = Inr ZBoolean"
| "getParsedType VFunction = Inr ZFunction"
| "getParsedType (VBigInt _) = Inr ZBigint"
| "getParsedType VSymbol = Inr ZSymbol"
| "getParsedType VRevokedProxy = Inl TypeError"
| "getParsedType (VArray _) = Inr ZArray"
| "getParsedType VNull = Inr ZNull"
| "getParsedType (VObject props) =
     (if has_method props ''then'' \<and> has_method props ''catch'' then Inr ZPromise
      else Inr ZObject)"

text \<open>
  \<^verbatim>\<open>z.string().regex(r).safeParse(v).success\<close>: the string schema reports an issue
  when the parsed type is not \<^verbatim>\<open>string\<close>, and otherwise runs its one check,
  \<^verbatim>\<open>r.test\<close> on the string; \<^verbatim>\<open>success\<close> is true when there is no issue.
\<close>

definition safeParse_success :: "regex \<Rightarrow> jsvalue \<Rightarrow> js_error + bool" where
  "safeParse_success r v =
     (case getParsedType v of
        Inl e \<Rightarrow> Inl e
      | Inr t \<Rightarrow>
          (if t \<noteq> ZString then Inr False
           else (case v of VString s \<Rightarrow> Inr (test r s) | _ \<Rightarrow> Inr False)))"

definition isValidIPv4 :: "jsvalue \<Rightarrow> js_error + bool" where
  "isValidIPv4 v = safeParse_success ipV4Pattern v"

text \<open>\<^verbatim>\<open>typeof v === 'string'\<close>\<close>

definition is_string :: "jsvalue \<Rightarrow> bool" where
  "is_string v = (case v of VString _ \<Rightarrow> True | _ \<Rightarrow> False)"

section \<open>The grammar the specification describes\<close>

subsection \<open>The language of a pattern\<close>

fun lpow :: "string set \<Rightarrow> nat \<Rightarrow> string set" where
  "lpow L 0 = {[]}"
| "lpow L (Suc n) = {u @ v | u v. u \<in> L \<and> v \<in> lpow L n}"

primrec lang :: "regex \<Rightarrow> string set" where
  "lang (Cls rs) = {[c] | c. in_class rs c}"
| "lang (Lit c) = {[c]}"
| "lang (Seq a b) = {u @ v | u v. u \<in> lang a \<and> v \<in> lang b}"
| "lang (Alt a b) = lang a \<union> lang b"
| "lang (Rep lo hi r) = (\<Union>n \<in> {lo..hi}. lpow (lang r) n)"

text \<open>What can be left of \<open>s\<close> after a prefix in \<open>L\<close>.\<close>

definition residuals :: "string set \<Rightarrow> string \<Rightarrow> string set" where
  "residuals L s = {t. \<exists>p \<in> L. s = p @ t}"

subsection \<open>Hextets and octet fields\<close>

text \<open>A hextet: one to four hexadecimal digits, in either case.\<close>

definition is_hex_digit :: "char \<Rightarrow> bool" where
  "is_hex_digit c = (c \<in> set ''0123456789ABCDEFabcdef'')"

definition hextet :: "string \<Rightarrow> bool" where
  "hextet h = (1 \<le> length h \<and> length h \<le> 4 \<and> list_all is_hex_digit h)"

text \<open>
  The minimal-digit decimal representation of a natural number, and the octet fields:
  the representations of 0 to 255.
\<close>

definition digit_char :: "nat \<Rightarrow> char" where
  "digit_char k = ''0123456789'' ! k"

fun decimal :: "nat \<Rightarrow> string" where
  "decimal n = (if n < 10 then [digit_char n] else decimal (n div 10) @ [digit_char (n mod 10)])"

definition octet_field :: "string \<Rightarrow> bool" where
  "octet_field f = list_ex (\<lambda>n. f = decimal n) [0..<256]"

text \<open>A dotted quad: exactly four octet fields separated by \<^verbatim>\<open>.\<close>.\<close>

definition dotted_quad :: "string \<Rightarrow> bool" where
  "dotted_quad s = (let fs = js_split CHR ''.'' s in length fs = 4 \<and> list_all octet_field fs)"

text \<open>\<open>join c\<close> writes parts with the separator \<open>c\<close> between them.\<close>

fun join :: "char \<Rightarrow> string list \<Rightarrow> string" where
  "join c [] = []"
| "join c [p] = p"
| "join c (p # q # ps) = p @ c # join c (q # ps)"

subsection \<open>Stray colons and compaction markers\<close>

text \<open>Whether a string begins or ends with a given character.\<close>

definition starts_with :: "char \<Rightarrow> string \<Rightarrow> bool" where
  "starts_with c s = (case s of [] \<Rightarrow> False | x # _ \<Rightarrow> x = c)"

definition ends_with :: "char \<Rightarrow> string \<Rightarrow> bool" where
  "ends_with c s = (s \<noteq> [] \<and> last s = c)"

text \<open>
  A string without a stray colon: a colon at an end of the string is followed, or
  preceded, by another one.
\<close>

definition clean :: "string \<Rightarrow> bool" where
  "clean s = ((starts_with CHR '':'' s \<longrightarrow> starts_with CHR '':'' (tl s)) \<and>
              (ends_with CHR '':'' s \<longrightarrow> ends_with CHR '':'' (butlast s)))"

text \<open>
  The number of compaction markers in a string: the positions at which \<^verbatim>\<open>::\<close>
  occurs. Two markers that do not overlap are two such positions.
\<close>

fun markers :: "string \<Rightarrow> nat" where
  "markers (a # b # r) = (if a = CHR '':'' \<and> b = CHR '':'' then 1 else 0) + markers (b # r)"
| "markers _ = 0"

subsection \<open>IPv6 address literals\<close>

text \<open>
  The textual forms of an IPv6 address that the specification names. Full form: eight
  hextets separated by single colons, or six hextets and a dotted quad. Compact form: one
  \<^verbatim>\<open>::\<close> with hextets separated by single colons on either side (none, on a side, is
  allowed), the right side optionally ending in a dotted quad, where the \<^verbatim>\<open>::\<close>
  stands for at least one omitted group, so that at most 7 hextets are written, or at
  most 5 before a dotted quad, which stands for two groups.
\<close>

definition groups :: "string \<Rightarrow> string list" where
  "groups t = (if t = [] then [] else js_split CHR '':'' t)"

definition full_form :: "string \<Rightarrow> bool" where
  "full_form s =
     (let fs = js_split CHR '':'' s
      in (length fs = 8 \<and> list_all hextet fs) \<or>
         (length fs = 7 \<and> list_all hextet (butlast fs) \<and> dotted_quad (last fs)))"

definition compact_at :: "string \<Rightarrow> string \<Rightarrow> bool" where
  "compact_at l r =
     (let ls = groups l; rs = groups r
      in list_all hextet ls \<and>
         ((list_all hextet rs \<and> length ls + length rs \<le> 7) \<or>
          (rs \<noteq> [] \<and> list_all hextet (butlast rs) \<and> dotted_quad (last rs) \<and>
           length ls + length (butlast rs) \<le> 5)))"

definition compact_form :: "string \<Rightarrow> bool" where
  "compact_form s =
     list_ex (\<lambda>i. take 2 (drop i s) = ''::'' \<and> compact_at (take i s) (drop (i + 2) s))
       [0..<length s]"

definition ipv6_literal :: "string \<Rightarrow> bool" where
  "ipv6_literal s = (full_form s \<or> compact_form s)"

subsection \<open>The two stages of \<^verbatim>\<open>parsePossibleIpString\<close>\<close>

text \<open>
  For the proofs the body of \<^verbatim>\<open>parsePossibleIpString\<close> is cut in two: trimming the
  split parts at both ends, and cutting the trimmed parts at the first empty one.
  \<open>parsePossibleIpString_eq\<close> below shows that the function is their composition.
\<close>

definition trim_parts :: "string list \<Rightarrow> string list" where
  "trim_parts parts0 =
     (let parts = (if first_elem parts0 = Some [] then shift parts0 else parts0)
      in if last_elem parts = Some [] then snd (pop parts) else parts)"

definition compact_split :: "string list \<Rightarrow> string list list" where
  "compact_split parts =
     (let sep = indexOf parts []
      in if sep \<ge> 0 then [slice parts 0 sep, ''0'' # slice_from parts (sep + 1)]
         else [parts])"

section \<open>The matcher computes the language\<close>

declare decimal.simps [simp del]

lemma residualsI: "p \<in> L \<Longrightarrow> s = p @ t \<Longrightarrow> t \<in> residuals L s"
  unfolding residuals_def by blast

lemma residualsE: "t \<in> residuals L s \<Longrightarrow> (\<And>p. p \<in> L \<Longrightarrow> s = p @ t \<Longrightarrow> P) \<Longrightarrow> P"
  unfolding residuals_def by blast

lemma lpow_SucI: "u \<in> L \<Longrightarrow> v \<in> lpow L n \<Longrightarrow> u @ v \<in> lpow L (Suc n)"
  by auto

lemma lpow_SucE: "w \<in> lpow L (Suc n) \<Longrightarrow> (\<And>u v. u \<in> L \<Longrightarrow> v \<in> lpow L n \<Longrightarrow> w = u @ v \<Longrightarrow> P) \<Longrightarrow> P"
  by auto

lemma residuals_step:
  "(\<Union>t \<in> residuals L s. \<Union>n \<in> {lo - 1..hi}. residuals (lpow L n) t)
     = (\<Union>n \<in> {max lo 1..Suc hi}. residuals (lpow L n) s)" (is "?A = ?B")
proof (intro set_eqI iffI)
  fix t assume "t \<in> ?A"
  then obtain t' n where t': "t' \<in> residuals L s" and n: "lo - 1 \<le> n" "n \<le> hi"
    and t: "t \<in> residuals (lpow L n) t'" by auto
  from t' obtain p where p: "p \<in> L" "s = p @ t'" by (rule residualsE)
  from t obtain q where q: "q \<in> lpow L n" "t' = q @ t" by (rule residualsE)
  have "p @ q \<in> lpow L (Suc n)" using p(1) q(1) by (rule lpow_SucI)
  moreover have "s = (p @ q) @ t" using p(2) q(2) by simp
  ultimately have "t \<in> residuals (lpow L (Suc n)) s" by (rule residualsI)
  moreover have "Suc n \<in> {max lo 1..Suc hi}" using n by auto
  ultimately show "t \<in> ?B" by blast
next
  fix t assume "t \<in> ?B"
  then obtain n where n: "max lo 1 \<le> n" "n \<le> Suc hi" and t: "t \<in> residuals (lpow L n) s"
    by auto
  from n(1) obtain k where k: "n = Suc k" by (cases n) auto
  from t obtain w where w: "w \<in> lpow L (Suc k)" "s = w @ t" unfolding k by (rule residualsE)
  from w(1) obtain p q where pq: "p \<in> L" "q \<in> lpow L k" "w = p @ q" by (rule lpow_SucE)
  have "s = p @ (q @ t)" using w(2) pq(3) by simp
  with pq(1) have 1: "q @ t \<in> residuals L s" by (rule residualsI)
  have 2: "t \<in> residuals (lpow L k) (q @ t)" using pq(2) by (rule residualsI) simp
  have 3: "k \<in> {lo - 1..hi}" using n k by auto
  from 1 2 3 show "t \<in> ?A" by blast
qed

lemma residuals_lpow_0: "residuals (lpow L 0) s = {s}"
  by (auto simp: residuals_def)

lemma rep_residuals:
  assumes m: "\<And>s. set (m s) = residuals L s"
  shows "set (rep m lo hi s) = (\<Union>n \<in> {lo..hi}. residuals (lpow L n) s)"
proof (induction hi arbitrary: lo s)
  case 0
  show ?case by (auto simp: residuals_def)
next
  case (Suc hi)
  have "set (rep m lo (Suc hi) s) =
      (\<Union>t \<in> residuals L s. \<Union>n \<in> {lo - 1..hi}. residuals (lpow L n) t) \<union> (if lo = 0 then {s} else {})"
    by (simp add: m Suc.IH)
  also have "\<dots> = (\<Union>n \<in> {max lo 1..Suc hi}. residuals (lpow L n) s) \<union> (if lo = 0 then {s} else {})"
    by (simp only: residuals_step)
  also have "\<dots> = (\<Union>n \<in> {lo..Suc hi}. residuals (lpow L n) s)"
  proof (cases "lo = 0")
    case True
    have "{lo..Suc hi} = insert 0 {max lo 1..Suc hi}" using True by auto
    then have "(\<Union>n \<in> {lo..Suc hi}. residuals (lpow L n) s)
        = residuals (lpow L 0) s \<union> (\<Union>n \<in> {max lo 1..Suc hi}. residuals (lpow L n) s)"
      by (simp only: UN_insert)
    moreover have "(if lo = 0 then {s} else {}) = residuals (lpow L 0) s"
      using True by (simp add: residuals_def)
    ultimately show ?thesis by (simp only: Un_commute)
  next
    case False
    then have "max lo 1 = lo" by simp
    with False show ?thesis by simp
  qed
  finally show ?case .
qed

lemma rmatch_residuals: "set (rmatch r s) = residuals (lang r) s"
proof (induction r arbitrary: s)
  case (Cls rs)
  show ?case by (cases s) (auto simp: residuals_def)
next
  case (Lit c)
  show ?case by (cases s) (auto simp: residuals_def)
next
  case (Seq a b)
  have "set (rmatch (Seq a b) s) = (\<Union>t \<in> residuals (lang a) s. residuals (lang b) t)"
    by (simp add: Seq.IH)
  also have "\<dots> = residuals (lang (Seq a b)) s"
  proof (intro set_eqI iffI)
    fix t assume "t \<in> (\<Union>t \<in> residuals (lang a) s. residuals (lang b) t)"
    then obtain u v where "u \<in> lang a" "v \<in> lang b" "s = u @ v @ t"
      unfolding residuals_def by blast
    then have "u @ v \<in> lang (Seq a b)" "s = (u @ v) @ t" by auto
    then show "t \<in> residuals (lang (Seq a b)) s" unfolding residuals_def by blast
  next
    fix t assume "t \<in> residuals (lang (Seq a b)) s"
    then obtain u v where "u \<in> lang a" "v \<in> lang b" "s = u @ v @ t"
      unfolding residuals_def by auto
    then have "v @ t \<in> residuals (lang a) s" "t \<in> residuals (lang b) (v @ t)"
      unfolding residuals_def by auto
    then show "t \<in> (\<Union>t \<in> residuals (lang a) s. residuals (lang b) t)" by blast
  qed
  finally show ?case .
next
  case (Alt a b)
  show ?case by (auto simp: Alt.IH residuals_def)
next
  case (Rep lo hi r)
  have "set (rep (rmatch r) lo hi s) = (\<Union>n \<in> {lo..hi}. residuals (lpow (lang r) n) s)"
    by (rule rep_residuals) (rule Rep.IH)
  then show ?case by (auto simp: residuals_def)
qed

lemma test_lang: "test r s \<longleftrightarrow> s \<in> lang r"
  by (auto simp: test_def list_ex_iff rmatch_residuals residuals_def)

lemma digit_range: "in_range c (CHR ''0'', CHR ''9'') \<longleftrightarrow> c \<in> set ''0123456789''"
  by (simp add: in_range_def flip: of_char_eq_iff [where ?'a = nat]) arith

lemma range05: "in_range c (CHR ''0'', CHR ''5'') \<longleftrightarrow> c \<in> set ''012345''"
  by (simp add: in_range_def flip: of_char_eq_iff [where ?'a = nat]) arith

lemma range04: "in_range c (CHR ''0'', CHR ''4'') \<longleftrightarrow> c \<in> set ''01234''"
  by (simp add: in_range_def flip: of_char_eq_iff [where ?'a = nat]) arith

lemma range19: "in_range c (CHR ''1'', CHR ''9'') \<longleftrightarrow> c \<in> set ''123456789''"
  by (simp add: in_range_def flip: of_char_eq_iff [where ?'a = nat]) arith

lemma rangeAF: "in_range c (CHR ''A'', CHR ''F'') \<longleftrightarrow> c \<in> set ''ABCDEF''"
  by (simp add: in_range_def flip: of_char_eq_iff [where ?'a = nat]) arith

lemma rangeaf: "in_range c (CHR ''a'', CHR ''f'') \<longleftrightarrow> c \<in> set ''abcdef''"
  by (simp add: in_range_def flip: of_char_eq_iff [where ?'a = nat]) arith

lemma hex_class:
  "in_class [(CHR ''0'', CHR ''9''), (CHR ''A'', CHR ''F''), (CHR ''a'', CHR ''f'')] c \<longleftrightarrow> is_hex_digit c"
proof -
  have e: "''0123456789ABCDEFabcdef'' = ''0123456789'' @ ''ABCDEF'' @ ''abcdef''" by simp
  show ?thesis
    unfolding in_class_def is_hex_digit_def e set_append Un_iff list_ex_Cons_iff list_ex_Nil_iff digit_range rangeAF rangeaf
    by (simp only: simp_thms)
qed

lemma lpow_chars: "lpow {[c] | c. P c} n = {p. length p = n \<and> (\<forall>c \<in> set p. P c)}"
proof (induction n)
  case 0
  show ?case by auto
next
  case (Suc n)
  show ?case
  proof (intro set_eqI iffI)
    fix p assume "p \<in> lpow {[c] | c. P c} (Suc n)"
    then obtain c v where "P c" "v \<in> lpow {[c] | c. P c} n" "p = c # v" by auto
    with Suc.IH show "p \<in> {p. length p = Suc n \<and> (\<forall>c \<in> set p. P c)}" by auto
  next
    fix p assume "p \<in> {p. length p = Suc n \<and> (\<forall>c \<in> set p. P c)}"
    then obtain c v where p: "p = c # v" "P c" "length v = n" "\<forall>c \<in> set v. P c"
      by (cases p) auto
    then have "v \<in> lpow {[c] | c. P c} n" using Suc.IH by simp
    with p(2) have "[c] @ v \<in> lpow {[c] | c. P c} (Suc n)" by (intro lpow_SucI) auto
    with p(1) show "p \<in> lpow {[c] | c. P c} (Suc n)" by simp
  qed
qed

lemma ipPair_hextet: "test ipPair h \<longleftrightarrow> hextet h"
proof -
  have "lang ipPair = {p. 1 \<le> length p \<and> length p \<le> 4 \<and> (\<forall>c \<in> set p. is_hex_digit c)}"
    unfolding ipPair_def lang.simps hex_class lpow_chars by auto
  then show ?thesis by (simp add: test_lang hextet_def list_all_iff)
qed

section \<open>Types and totality\<close>

lemma parse_shape:
  "(\<exists>parts. parsePossibleIpString s = [parts]) \<or>
   (\<exists>left rest. parsePossibleIpString s = [left, ''0'' # rest])"
  by (simp add: parsePossibleIpString_def Let_def)

lemma isValidCompactIp_pair: "\<exists>b. isValidCompactIp [left, right] = Inr b"
  by (simp add: isValidCompactIp_def split: prod.split)

subsection \<open>The IPv6 validator on every value\<close>

lemma isValidIp_non_string: "\<not> is_string v \<Longrightarrow> isValidIp v = Inr False"
  by (cases v) (simp_all add: is_string_def isValidIp_def)

lemma isValidIp_zero_address: "isValidIp (VString ''::'') = Inr True"
  by (simp add: isValidIp_def)

lemma isValidIp_total: "\<exists>b. isValidIp v = Inr b"
proof (cases v)
  case (VString s)
  from parse_shape [of s] show ?thesis
  proof
    assume "\<exists>parts. parsePossibleIpString s = [parts]"
    then show ?thesis using VString by (auto simp: isValidIp_def)
  next
    assume "\<exists>left rest. parsePossibleIpString s = [left, ''0'' # rest]"
    then obtain left rest where "parsePossibleIpString s = [left, ''0'' # rest]" by blast
    then show ?thesis using VString isValidCompactIp_pair [of left "''0'' # rest"]
      by (auto simp: isValidIp_def)
  qed
qed (auto simp: isValidIp_def)

subsection \<open>The IPv4 entry point on every value\<close>

lemma isValidIPv4_string: "isValidIPv4 (VString s) = Inr (test ipV4Pattern s)"
  by (simp add: isValidIPv4_def safeParse_success_def)

lemma isValidIPv4_non_string:
  "\<not> is_string v \<Longrightarrow> v \<noteq> VRevokedProxy \<Longrightarrow> isValidIPv4 v = Inr False"
  by (cases v) (simp_all add: is_string_def isValidIPv4_def safeParse_success_def)

lemma isValidIPv4_revoked: "isValidIPv4 VRevokedProxy = Inl TypeError"
  by (simp add: isValidIPv4_def safeParse_success_def)

lemma isValidIPv4_total_otherwise: "v \<noteq> VRevokedProxy \<Longrightarrow> \<exists>b. isValidIPv4 v = Inr b"
  by (cases v) (auto simp: isValidIPv4_def safeParse_success_def)

text \<open>
  C6. Every value that is not a string (boolean, null, undefined, number, bigint, symbol,
  object, array) has to be rejected by both validators, and the exact string
  \<^verbatim>\<open>::\<close> accepted by the IPv6 validator. The IPv6 validator does both
  (\<open>isValidIp_non_string\<close>, \<open>isValidIp_zero_address\<close>), and the IPv4 entry point
  rejects every non-string but one (\<open>isValidIPv4_non_string\<close>): on a revoked proxy,
  an object, it does not return false but throws, where the IPv6 validator returns false.
\<close>

theorem isValidIPv4_throws_on_revoked_proxy:
  "\<not> is_string VRevokedProxy \<and> isValidIPv4 VRevokedProxy = Inl TypeError \<and>
   isValidIp VRevokedProxy = Inr False"
  by (simp add: is_string_def isValidIPv4_revoked isValidIp_def)

text \<open>
  C8. Both validators have to be total, with no exception leaving them. The IPv6
  validator is (\<open>isValidIp_total\<close>: the \<^verbatim>\<open>TypeError\<close> of the destructuring in
  \<^verbatim>\<open>isValidCompactIp\<close> is never raised, because \<^verbatim>\<open>parsePossibleIpString\<close> returns
  one array or two). The IPv4 entry point is total on every other value
  (\<open>isValidIPv4_total_otherwise\<close>) but not on all: on a revoked proxy the
  \<^verbatim>\<open>TypeError\<close> of \<^verbatim>\<open>Array.isArray\<close> leaves \<^verbatim>\<open>safeParse\<close>, and no boolean
  is returned.
\<close>

theorem isValidIPv4_exception_escapes:
  "(\<forall>b. isValidIPv4 VRevokedProxy \<noteq> Inr b) \<and> (\<exists>b. isValidIp VRevokedProxy = Inr b)"
  by (auto simp: isValidIPv4_revoked isValidIp_def)

text \<open>
  C10. Whenever \<^verbatim>\<open>parsePossibleIpString\<close> finds a compaction, so that \<^verbatim>\<open>isValidIp\<close>
  calls \<^verbatim>\<open>isValidCompactIp\<close>, the right-hand list starts with the synthetic
  \<^verbatim>\<open>'0'\<close> and is not empty; \<^verbatim>\<open>right.pop()\<close> then returns a defined value, and
  \<^verbatim>\<open>last ?? ''\<close> is that value whatever the fallback is.
\<close>

theorem compact_right_nonempty:
  "length (parsePossibleIpString s) \<noteq> 1 \<Longrightarrow>
   \<exists>left right x. parsePossibleIpString s = [left, right] \<and> right \<noteq> [] \<and>
     hd right = ''0'' \<and> fst (pop right) = Some x \<and> (\<forall>d. nullish (fst (pop right)) d = x)"
proof -
  assume "length (parsePossibleIpString s) \<noteq> 1"
  with parse_shape [of s] obtain left rest
    where p: "parsePossibleIpString s = [left, ''0'' # rest]" by auto
  have "fst (pop (''0'' # rest)) = Some (last (''0'' # rest))"
    by (simp add: pop_def last_elem_def)
  moreover have "\<forall>d. nullish (fst (pop (''0'' # rest))) d = last (''0'' # rest)"
    by (simp add: pop_def last_elem_def nullish_def)
  ultimately show ?thesis using p
    by (intro exI[of _ left] exI[of _ "''0'' # rest"] exI[of _ "last (''0'' # rest)"]) simp
qed

theorem compact_right_nonempty_witness:
  "length (parsePossibleIpString ''11::33'') \<noteq> 1 \<and>
   (\<exists>left right x. parsePossibleIpString ''11::33'' = [left, right] \<and> right \<noteq> [] \<and>
     hd right = ''0'' \<and> fst (pop right) = Some x \<and> (\<forall>d. nullish (fst (pop right)) d = x))"
proof -
  have h: "length (parsePossibleIpString ''11::33'') \<noteq> 1" by code_simp
  show ?thesis using h compact_right_nonempty [OF h] by blast
qed

section \<open>Splitting and joining\<close>

lemma js_split_nonempty: "js_split c s \<noteq> []"
  by (induction s) (auto split: list.splits)

lemma js_split_no_sep: "c \<notin> set a \<Longrightarrow> js_split c a = [a]"
  by (induction a) auto

lemma js_split_append: "c \<notin> set a \<Longrightarrow> js_split c (a @ c # r) = a # js_split c r"
  by (induction a) auto

lemma join_Cons: "ps \<noteq> [] \<Longrightarrow> join c (p # ps) = p @ c # join c ps"
  by (cases ps) auto

lemma join_js_split: "join c (js_split c s) = s"
proof (induction s)
  case Nil
  show ?case by simp
next
  case (Cons x xs)
  show ?case
  proof (cases "x = c")
    case True
    then show ?thesis using Cons.IH js_split_nonempty [of c xs] by (simp add: join_Cons)
  next
    case False
    obtain p ps where e: "js_split c xs = p # ps"
      using js_split_nonempty [of c xs] by (cases "js_split c xs") auto
    with Cons.IH have "xs = join c (p # ps)" by simp
    moreover have "join c ((x # p) # ps) = x # join c (p # ps)" by (cases ps) auto
    ultimately show ?thesis using False e by simp
  qed
qed

lemma js_split_join:
  "ps \<noteq> [] \<Longrightarrow> \<forall>p \<in> set ps. c \<notin> set p \<Longrightarrow> js_split c (join c ps) = ps"
proof (induction ps)
  case Nil
  then show ?case by simp
next
  case (Cons p ps)
  show ?case
  proof (cases ps)
    case Nil
    with Cons.prems show ?thesis by (simp add: js_split_no_sep)
  next
    case (Cons q qs)
    with Cons.prems Cons.IH show ?thesis by (simp add: js_split_append)
  qed
qed

lemma js_split_sep_free: "p \<in> set (js_split c s) \<Longrightarrow> c \<notin> set p"
  by (induction s arbitrary: p) (auto split: if_splits list.splits)

section \<open>The IPv4 pattern\<close>

lemma digit_char_code: "k < 10 \<Longrightarrow> of_char (digit_char k) = (48 + k :: nat)"
proof -
  assume "k < 10"
  then have "k = 0 \<or> k = 1 \<or> k = 2 \<or> k = 3 \<or> k = 4 \<or> k = 5 \<or> k = 6 \<or> k = 7
    \<or> k = 8 \<or> k = 9" by arith
  then show ?thesis by (elim disjE) (simp_all add: digit_char_def)
qed

lemma digit_range_iff:
  assumes "48 \<le> (of_char lo :: nat)" "(of_char hi :: nat) \<le> 57"
  shows "in_range c (lo, hi) \<longleftrightarrow>
    (\<exists>k<10. c = digit_char k \<and> (of_char lo :: nat) \<le> 48 + k \<and> 48 + k \<le> (of_char hi :: nat))"
proof
  assume r: "in_range c (lo, hi)"
  define k where "k = (of_char c :: nat) - 48"
  from r assms have k: "k < 10" "(of_char c :: nat) = 48 + k"
    by (auto simp: in_range_def k_def)
  then have "(of_char c :: nat) = of_char (digit_char k)" by (simp add: digit_char_code)
  then have "c = digit_char k" by (simp only: of_char_eq_iff)
  with k r show "\<exists>k<10. c = digit_char k \<and> (of_char lo :: nat) \<le> 48 + k \<and> 48 + k \<le> (of_char hi :: nat)"
    by (auto simp: in_range_def)
next
  assume "\<exists>k<10. c = digit_char k \<and> (of_char lo :: nat) \<le> 48 + k \<and> 48 + k \<le> (of_char hi :: nat)"
  then show "in_range c (lo, hi)" by (auto simp: in_range_def digit_char_code)
qed

lemma dr09: "in_range c (CHR ''0'', CHR ''9'') \<longleftrightarrow> (\<exists>k<10. c = digit_char k)"
  by (subst digit_range_iff) auto

lemma dr05: "in_range c (CHR ''0'', CHR ''5'') \<longleftrightarrow> (\<exists>k<6. c = digit_char k)"
proof -
  have "\<And>k::nat. (k < 10 \<and> c = digit_char k \<and> k \<le> 5) = (k < 6 \<and> c = digit_char k)" by auto
  then show ?thesis by (subst digit_range_iff) simp_all
qed

lemma dr04: "in_range c (CHR ''0'', CHR ''4'') \<longleftrightarrow> (\<exists>k<5. c = digit_char k)"
proof -
  have "\<And>k::nat. (k < 10 \<and> c = digit_char k \<and> k \<le> 4) = (k < 5 \<and> c = digit_char k)" by auto
  then show ?thesis by (subst digit_range_iff) simp_all
qed

lemma dr19: "in_range c (CHR ''1'', CHR ''9'') \<longleftrightarrow> (\<exists>k. 1 \<le> k \<and> k < 10 \<and> c = digit_char k)"
  by (subst digit_range_iff) auto

lemma digit_lits:
  "CHR ''1'' = digit_char 1" "CHR ''2'' = digit_char 2" "CHR ''5'' = digit_char 5"
  by (simp_all add: digit_char_def)

lemma digit_char_not_dot: "k < 10 \<Longrightarrow> digit_char k \<noteq> CHR ''.''"
proof
  assume "k < 10" "digit_char k = CHR ''.''"
  then have "(48 + k :: nat) = of_char CHR ''.''" by (simp add: digit_char_code [symmetric])
  then show False by simp
qed

lemma single_class: "in_class [r] c \<longleftrightarrow> in_range c r"
  by (simp add: in_class_def)

lemma lang_cls1: "lang (Cls [r]) = {[c] | c. in_range c r}"
  by (simp add: single_class)

lemma lang_seq_lit: "lang (Seq (Lit a) q) = {a # v | v. v \<in> lang q}"
  by auto

lemma lang_seq_cls: "lang (Seq (Cls [r]) q) = {c # v | c v. in_range c r \<and> v \<in> lang q}"
proof (intro set_eqI iffI)
  fix p assume "p \<in> lang (Seq (Cls [r]) q)"
  then show "p \<in> {c # v | c v. in_range c r \<and> v \<in> lang q}" by (auto simp: single_class)
next
  fix p assume "p \<in> {c # v | c v. in_range c r \<and> v \<in> lang q}"
  then obtain c v where "p = [c] @ v" "[c] \<in> lang (Cls [r])" "v \<in> lang q"
    by (auto simp: single_class)
  then show "p \<in> lang (Seq (Cls [r]) q)" unfolding lang.simps(3) by blast
qed

lemma length2: "length p = 2 \<longleftrightarrow> (\<exists>b c. p = [b, c])"
  by (cases p; cases "tl p") auto

lemma lang_rep22: "lang (Rep 2 2 (Cls [r])) = {[b, c] | b c. in_range b r \<and> in_range c r}"
proof -
  have "lang (Rep 2 2 (Cls [r])) = {p. length p = 2 \<and> (\<forall>c \<in> set p. in_range c r)}"
    by (simp add: single_class lpow_chars)
  also have "\<dots> = {[b, c] | b c. in_range b r \<and> in_range c r}"
    by (auto simp: length2)
  finally show ?thesis .
qed

lemma lang_octet:
  "f \<in> lang octet \<longleftrightarrow>
     (\<exists>k<6. f = [digit_char 2, digit_char 5, digit_char k]) \<or>
     (\<exists>j<5. \<exists>k<10. f = [digit_char 2, digit_char j, digit_char k]) \<or>
     (\<exists>j<10. \<exists>k<10. f = [digit_char 1, digit_char j, digit_char k]) \<or>
     (\<exists>j k. 1 \<le> j \<and> j < 10 \<and> k < 10 \<and> f = [digit_char j, digit_char k]) \<or>
     (\<exists>k<10. f = [digit_char k])"
  unfolding octet_def lang.simps(4) Un_iff lang_seq_lit lang_seq_cls lang_rep22 lang_cls1
    mem_Collect_eq dr09 dr05 dr04 dr19
  unfolding digit_lits
  by (intro arg_cong2 [where f = "(\<or>)"]; blast)

lemma decimal1: "k < 10 \<Longrightarrow> decimal k = [digit_char k]"
  by (simp add: decimal.simps)

lemma decimal2:
  assumes "1 \<le> j" "j < 10" "k < 10"
  shows "decimal (10 * j + k) = [digit_char j, digit_char k]"
proof -
  have a: "\<not> 10 * j + k < 10" using assms by arith
  have b: "(10 * j + k) div 10 = j" using assms(3) by simp
  have c: "(10 * j + k) mod 10 = k" using assms(3) by simp
  have "decimal (10 * j + k) = decimal j @ [digit_char k]"
    by (subst decimal.simps) (simp only: a b c if_False)
  then show ?thesis using assms by (simp add: decimal1)
qed

lemma decimal3:
  assumes "1 \<le> i" "i < 10" "j < 10" "k < 10"
  shows "decimal (100 * i + 10 * j + k) = [digit_char i, digit_char j, digit_char k]"
proof -
  have "100 \<le> 100 * i" using assms(1) by simp
  then have a: "\<not> 100 * i + 10 * j + k < 10" by linarith
  have e: "100 * i + 10 * j + k = 10 * (10 * i + j) + k" by simp
  have "(10 * (10 * i + j) + k) div 10 = 10 * i + j + k div 10"
    by (rule div_mult_self4) simp
  then have b: "(100 * i + 10 * j + k) div 10 = 10 * i + j"
    using assms(4) by (simp only: e div_less add_0_right)
  have "(10 * (10 * i + j) + k) mod 10 = k mod 10"
    by (rule mod_mult_self4)
  then have c: "(100 * i + 10 * j + k) mod 10 = k"
    using assms(4) by (simp only: e mod_less)
  have "decimal (100 * i + 10 * j + k) = decimal (10 * i + j) @ [digit_char k]"
    by (subst decimal.simps) (simp only: a b c if_False)
  moreover have "decimal (10 * i + j) = [digit_char i, digit_char j]"
    using assms(1-3) by (rule decimal2)
  ultimately show ?thesis by (simp only: append.simps)
qed

lemma octet_250: "k < 6 \<Longrightarrow> decimal (250 + k) = [digit_char 2, digit_char 5, digit_char k]"
  using decimal3 [of 2 5 k] by simp

lemma octet_200:
  "j < 5 \<Longrightarrow> k < 10 \<Longrightarrow> decimal (200 + 10 * j + k) = [digit_char 2, digit_char j, digit_char k]"
  using decimal3 [of 2 j k] by simp

lemma octet_100:
  "j < 10 \<Longrightarrow> k < 10 \<Longrightarrow> decimal (100 + 10 * j + k) = [digit_char 1, digit_char j, digit_char k]"
  using decimal3 [of 1 j k] by simp

lemma octet_field_iff: "octet_field f \<longleftrightarrow> (\<exists>n<256. f = decimal n)"
  by (auto simp: octet_field_def list_ex_iff)

lemma octet_fieldI: "n < 256 \<Longrightarrow> f = decimal n \<Longrightarrow> octet_field f"
  unfolding octet_field_iff by blast

lemma octet_field_lang: "f \<in> lang octet \<longleftrightarrow> octet_field f"
proof
  assume "f \<in> lang octet"
  then consider
      k where "k < 6" "f = [digit_char 2, digit_char 5, digit_char k]"
    | j k where "j < 5" "k < 10" "f = [digit_char 2, digit_char j, digit_char k]"
    | j k where "j < 10" "k < 10" "f = [digit_char 1, digit_char j, digit_char k]"
    | j k where "1 \<le> j" "j < 10" "k < 10" "f = [digit_char j, digit_char k]"
    | k where "k < 10" "f = [digit_char k]"
    unfolding lang_octet by blast
  then show "octet_field f"
  proof cases
    case 1
    show ?thesis by (rule octet_fieldI [of "250 + k"]) (use 1 in \<open>simp_all add: octet_250\<close>)
  next
    case 2
    show ?thesis by (rule octet_fieldI [of "200 + 10 * j + k"]) (use 2 in \<open>simp_all add: octet_200\<close>)
  next
    case 3
    show ?thesis by (rule octet_fieldI [of "100 + 10 * j + k"]) (use 3 in \<open>simp_all add: octet_100\<close>)
  next
    case 4
    show ?thesis by (rule octet_fieldI [of "10 * j + k"]) (use 4 in \<open>simp_all add: decimal2\<close>)
  next
    case 5
    show ?thesis by (rule octet_fieldI [of k]) (use 5 in \<open>simp_all add: decimal1\<close>)
  qed
next
  assume "octet_field f"
  then obtain n where n: "n < 256" "f = decimal n" unfolding octet_field_iff by blast
  define i j k where "i = n div 10 div 10" and "j = n div 10 mod 10" and "k = n mod 10"
  have jk: "j < 10" "k < 10" by (simp_all add: j_def k_def)
  have "n = 10 * (n div 10) + k" by (simp add: k_def)
  moreover have "n div 10 = 10 * i + j" by (simp add: i_def j_def)
  ultimately have e: "n = 100 * i + 10 * j + k" by simp
  consider "i = 0" "j = 0" | "i = 0" "1 \<le> j" | "i = 1" | "i = 2" "j < 5" | "i = 2" "j = 5" "k < 6"
    using n(1) jk unfolding e by arith
  then show "f \<in> lang octet"
  proof cases
    case 1
    with n e jk have "f = [digit_char k]" by (simp add: decimal1)
    with jk show ?thesis unfolding lang_octet by blast
  next
    case 2
    with n e jk have "f = [digit_char j, digit_char k]" by (simp add: decimal2)
    with jk 2 show ?thesis unfolding lang_octet by blast
  next
    case 3
    with n e jk have "f = [digit_char 1, digit_char j, digit_char k]" by (simp add: octet_100)
    with jk show ?thesis unfolding lang_octet by blast
  next
    case 4
    with n e jk have "f = [digit_char 2, digit_char j, digit_char k]" by (simp add: octet_200)
    with jk 4 show ?thesis unfolding lang_octet by blast
  next
    case 5
    with n e have "f = [digit_char 2, digit_char 5, digit_char k]" by (simp add: octet_250)
    with 5 show ?thesis unfolding lang_octet by blast
  qed
qed

lemma digit_char_digit: "k < 10 \<Longrightarrow> in_range (digit_char k) (CHR ''0'', CHR ''9'')"
  unfolding dr09 by blast

lemma lang_octet_digits:
  assumes "f \<in> lang octet" "c \<in> set f"
  shows "in_range c (CHR ''0'', CHR ''9'')"
proof -
  from assms(1) consider
      k where "k < 6" "f = [digit_char 2, digit_char 5, digit_char k]"
    | j k where "j < 5" "k < 10" "f = [digit_char 2, digit_char j, digit_char k]"
    | j k where "j < 10" "k < 10" "f = [digit_char 1, digit_char j, digit_char k]"
    | j k where "1 \<le> j" "j < 10" "k < 10" "f = [digit_char j, digit_char k]"
    | k where "k < 10" "f = [digit_char k]"
    unfolding lang_octet by blast
  then show ?thesis
  proof cases
    case 1
    then have "k < 10" by simp
    with 1 assms(2) digit_char_digit [of 2] digit_char_digit [of 5] digit_char_digit [of k]
    show ?thesis by auto
  next
    case 2
    then have "j < 10" by simp
    with 2 assms(2) digit_char_digit [of 2] digit_char_digit [of j] digit_char_digit [of k]
    show ?thesis by auto
  next
    case 3
    with assms(2) digit_char_digit [of 1] digit_char_digit [of j] digit_char_digit [of k]
    show ?thesis by auto
  next
    case 4
    with assms(2) digit_char_digit [of j] digit_char_digit [of k]
    show ?thesis by auto
  next
    case 5
    with assms(2) digit_char_digit [of k]
    show ?thesis by auto
  qed
qed

lemma octet_field_no_dot: "octet_field f \<Longrightarrow> CHR ''.'' \<notin> set f"
proof
  assume "octet_field f" "CHR ''.'' \<in> set f"
  then have "in_range CHR ''.'' (CHR ''0'', CHR ''9'')"
    by (intro lang_octet_digits [of f]) (simp_all add: octet_field_lang)
  then show False by (simp add: in_range_def)
qed

lemma lpow_3: "lpow L 3 = {u @ v @ w | u v w. u \<in> L \<and> v \<in> L \<and> w \<in> L}"
proof -
  have "lpow L (Suc (Suc (Suc 0))) = {u @ v @ w | u v w. u \<in> L \<and> v \<in> L \<and> w \<in> L}"
    by (simp only: lpow.simps) auto
  then show ?thesis by (simp only: numeral_3_eq_3)
qed

lemma lang_ipV4Pattern:
  "s \<in> lang ipV4Pattern \<longleftrightarrow>
     (\<exists>a b c d. octet_field a \<and> octet_field b \<and> octet_field c \<and> octet_field d \<and>
        s = a @ CHR ''.'' # b @ CHR ''.'' # c @ CHR ''.'' # d)"
proof -
  let ?D = "{CHR ''.'' # v | v. v \<in> lang octet}"
  have l: "lang ipV4Pattern = {a @ t | a t. a \<in> lang octet \<and> t \<in> lpow ?D 3}"
    by (simp add: ipV4Pattern_def lang_seq_lit)
  show ?thesis
  proof
    assume "s \<in> lang ipV4Pattern"
    then obtain a t where a: "a \<in> lang octet" "t \<in> lpow ?D 3" "s = a @ t"
      unfolding l by blast
    from a(2) obtain u v w where "u \<in> ?D" "v \<in> ?D" "w \<in> ?D" "t = u @ v @ w"
      unfolding lpow_3 by blast
    then obtain b c d where "b \<in> lang octet" "c \<in> lang octet" "d \<in> lang octet"
      "t = (CHR ''.'' # b) @ (CHR ''.'' # c) @ (CHR ''.'' # d)" by blast
    with a(1,3) show "\<exists>a b c d. octet_field a \<and> octet_field b \<and> octet_field c \<and> octet_field d \<and>
        s = a @ CHR ''.'' # b @ CHR ''.'' # c @ CHR ''.'' # d"
      unfolding octet_field_lang by (intro exI [of _ a] exI [of _ b] exI [of _ c] exI [of _ d]) simp
  next
    assume "\<exists>a b c d. octet_field a \<and> octet_field b \<and> octet_field c \<and> octet_field d \<and>
        s = a @ CHR ''.'' # b @ CHR ''.'' # c @ CHR ''.'' # d"
    then obtain a b c d where o: "a \<in> lang octet" "b \<in> lang octet" "c \<in> lang octet" "d \<in> lang octet"
      and s: "s = a @ CHR ''.'' # b @ CHR ''.'' # c @ CHR ''.'' # d"
      unfolding octet_field_lang by blast
    from o have "CHR ''.'' # b \<in> ?D" "CHR ''.'' # c \<in> ?D" "CHR ''.'' # d \<in> ?D" by blast+
    then have "(CHR ''.'' # b) @ (CHR ''.'' # c) @ (CHR ''.'' # d) \<in> lpow ?D 3"
      unfolding lpow_3 by blast
    with o(1) have "a @ (CHR ''.'' # b) @ (CHR ''.'' # c) @ (CHR ''.'' # d) \<in> lang ipV4Pattern"
      unfolding l by blast
    then show "s \<in> lang ipV4Pattern" by (simp add: s)
  qed
qed

lemma dotted_quad_iff:
  "dotted_quad s \<longleftrightarrow>
     (\<exists>a b c d. octet_field a \<and> octet_field b \<and> octet_field c \<and> octet_field d \<and>
        s = a @ CHR ''.'' # b @ CHR ''.'' # c @ CHR ''.'' # d)"
proof
  assume "dotted_quad s"
  then have l: "length (js_split CHR ''.'' s) = 4" and o: "list_all octet_field (js_split CHR ''.'' s)"
    by (simp_all add: dotted_quad_def Let_def)
  from l obtain a b c d where e: "js_split CHR ''.'' s = [a, b, c, d]"
    by (auto simp: eval_nat_numeral length_Suc_conv)
  have "join CHR ''.'' (js_split CHR ''.'' s) = s" by (rule join_js_split)
  then have "s = a @ CHR ''.'' # b @ CHR ''.'' # c @ CHR ''.'' # d" by (simp add: e)
  with o e show "\<exists>a b c d. octet_field a \<and> octet_field b \<and> octet_field c \<and> octet_field d \<and>
        s = a @ CHR ''.'' # b @ CHR ''.'' # c @ CHR ''.'' # d" by auto
next
  assume "\<exists>a b c d. octet_field a \<and> octet_field b \<and> octet_field c \<and> octet_field d \<and>
        s = a @ CHR ''.'' # b @ CHR ''.'' # c @ CHR ''.'' # d"
  then obtain a b c d where o: "octet_field a" "octet_field b" "octet_field c" "octet_field d"
    and s: "s = a @ CHR ''.'' # b @ CHR ''.'' # c @ CHR ''.'' # d" by blast
  from o have "js_split CHR ''.'' s = [a, b, c, d]"
    unfolding s by (simp add: js_split_append js_split_no_sep octet_field_no_dot)
  with o show "dotted_quad s" by (simp add: dotted_quad_def)
qed


lemma ipV4Pattern_iff: "test ipV4Pattern s \<longleftrightarrow> dotted_quad s"
  by (simp only: test_lang lang_ipV4Pattern dotted_quad_iff)

text \<open>
  C2. The anchored match of \<^verbatim>\<open>ipV4Pattern\<close> succeeds exactly on the strings made of
  four fields separated by \<^verbatim>\<open>.\<close>, each field the minimal-digit decimal
  representation of a number from 0 to 255. Nothing else is allowed in the string, so
  white space, a leading zero before another digit, a value above 255, and three or five
  fields all fail.
\<close>

theorem ipV4Pattern_dotted_quad: "test ipV4Pattern s \<longleftrightarrow> dotted_quad s"
  by (rule ipV4Pattern_iff)

theorem ipV4Pattern_dotted_quad_witness:
  "test ipV4Pattern ''192.168.0.2'' \<and> dotted_quad ''192.168.0.2'' \<and>
   \<not> test ipV4Pattern ''192.168.00.2'' \<and> \<not> dotted_quad ''192.168.00.2'' \<and>
   \<not> test ipV4Pattern ''0192.168.0.2'' \<and> \<not> dotted_quad ''0192.168.0.2'' \<and>
   \<not> test ipV4Pattern ''192.168.0.002'' \<and> \<not> dotted_quad ''192.168.0.002'' \<and>
   \<not> test ipV4Pattern ''192.168.0.259'' \<and> \<not> dotted_quad ''192.168.0.259'' \<and>
   \<not> test ipV4Pattern ''192.168.0'' \<and> \<not> dotted_quad ''192.168.0'' \<and>
   \<not> test ipV4Pattern ''192.168.0.2.8'' \<and> \<not> dotted_quad ''192.168.0.2.8'' \<and>
   \<not> test ipV4Pattern '' 192.168.0.2'' \<and> \<not> dotted_quad '' 192.168.0.2''"
proof -
  have "test ipV4Pattern ''192.168.0.2''" "\<not> test ipV4Pattern ''192.168.00.2''"
    "\<not> test ipV4Pattern ''0192.168.0.2''" "\<not> test ipV4Pattern ''192.168.0.002''"
    "\<not> test ipV4Pattern ''192.168.0.259''" "\<not> test ipV4Pattern ''192.168.0''"
    "\<not> test ipV4Pattern ''192.168.0.2.8''" "\<not> test ipV4Pattern '' 192.168.0.2''"
    by code_simp+
  then show ?thesis
    using ipV4Pattern_dotted_quad [of "''192.168.0.2''"]
      ipV4Pattern_dotted_quad [of "''192.168.00.2''"]
      ipV4Pattern_dotted_quad [of "''0192.168.0.2''"]
      ipV4Pattern_dotted_quad [of "''192.168.0.002''"]
      ipV4Pattern_dotted_quad [of "''192.168.0.259''"]
      ipV4Pattern_dotted_quad [of "''192.168.0''"]
      ipV4Pattern_dotted_quad [of "''192.168.0.2.8''"]
      ipV4Pattern_dotted_quad [of "'' 192.168.0.2''"]
    by blast
qed

section \<open>Parsing joined parts\<close>

lemma parsePossibleIpString_eq:
  "parsePossibleIpString s = compact_split (trim_parts (js_split CHR '':'' s))"
  by (simp add: parsePossibleIpString_def trim_parts_def compact_split_def Let_def)

lemma indexOf_notin: "y \<notin> set xs \<Longrightarrow> indexOf xs y = - 1"
  by (induction xs) (auto simp: Let_def)

lemma indexOf_first: "y \<notin> set xs \<Longrightarrow> indexOf (xs @ y # zs) y = int (length xs)"
  by (induction xs) (auto simp: Let_def)

lemma compact_split_full: "[] \<notin> set ps \<Longrightarrow> compact_split ps = [ps]"
  by (simp add: compact_split_def indexOf_notin)

lemma compact_split_at: "[] \<notin> set ls \<Longrightarrow> compact_split (ls @ [] # rs) = [ls, ''0'' # rs]"
  by (simp add: compact_split_def indexOf_first slice_def slice_from_def nat_add_distrib)

lemma trim_parts_clean:
  "ps \<noteq> [] \<Longrightarrow> hd ps \<noteq> [] \<Longrightarrow> last ps \<noteq> [] \<Longrightarrow> trim_parts ps = ps"
  by (cases ps) (auto simp: trim_parts_def first_elem_def last_elem_def)

lemma js_split_app: "js_split c (a @ c # r) = js_split c a @ js_split c r"
proof (induction a)
  case Nil
  show ?case by simp
next
  case (Cons x a)
  obtain p ps where "js_split c a = p # ps"
    using js_split_nonempty [of c a] by (cases "js_split c a") auto
  with Cons.IH show ?case by simp
qed

lemma js_split_snoc_sep: "js_split c (a @ [c]) = js_split c a @ [[]]"
  using js_split_app [of c a "[]"] by simp

lemma not_hex_digit: "\<not> is_hex_digit CHR '':''" "\<not> is_hex_digit CHR ''.''"
  by (simp_all add: is_hex_digit_def)

lemma hextet_parts: "hextet h \<Longrightarrow> h \<noteq> [] \<and> CHR '':'' \<notin> set h \<and> CHR ''.'' \<notin> set h"
proof -
  assume "hextet h"
  then have "h \<noteq> []" "\<forall>c \<in> set h. is_hex_digit c"
    by (auto simp: hextet_def list_all_iff)
  then show ?thesis using not_hex_digit by blast
qed

lemma hextet_not_dotted_quad: "hextet h \<Longrightarrow> \<not> dotted_quad h"
proof
  assume "hextet h" "dotted_quad h"
  then have "CHR ''.'' \<notin> set h" "CHR ''.'' \<in> set h"
    using hextet_parts [of h] by (auto simp: dotted_quad_iff)
  then show False by simp
qed

lemma dotted_quad_parts: "dotted_quad q \<Longrightarrow> q \<noteq> [] \<and> CHR '':'' \<notin> set q"
proof -
  assume "dotted_quad q"
  then obtain a b c d where o: "octet_field a" "octet_field b" "octet_field c" "octet_field d"
    and q: "q = a @ CHR ''.'' # b @ CHR ''.'' # c @ CHR ''.'' # d"
    unfolding dotted_quad_iff by blast
  have "\<And>f. octet_field f \<Longrightarrow> CHR '':'' \<notin> set f"
  proof
    fix f assume "octet_field f" "CHR '':'' \<in> set f"
    then have "in_range CHR '':'' (CHR ''0'', CHR ''9'')"
      by (intro lang_octet_digits [of f]) (simp_all add: octet_field_lang)
    then show False by (simp add: in_range_def)
  qed
  with o q show ?thesis by simp
qed

text \<open>Parts that a full-form string is made of: not empty, without a colon.\<close>

lemma parse_join:
  assumes "ps \<noteq> []" "\<forall>p \<in> set ps. p \<noteq> [] \<and> CHR '':'' \<notin> set p"
  shows "parsePossibleIpString (join CHR '':'' ps) = [ps]"
proof -
  have "js_split CHR '':'' (join CHR '':'' ps) = ps"
    using assms by (intro js_split_join) auto
  moreover have "hd ps \<noteq> []" "last ps \<noteq> []" "[] \<notin> set ps"
    using assms by (auto simp: hd_in_set last_in_set)
  ultimately show ?thesis
    using assms(1) by (simp add: parsePossibleIpString_eq trim_parts_clean compact_split_full)
qed

lemma parse_join_trailing:
  assumes "ps \<noteq> []" "\<forall>p \<in> set ps. p \<noteq> [] \<and> CHR '':'' \<notin> set p"
  shows "parsePossibleIpString (join CHR '':'' ps @ ''::'') = [ps, [''0'']]"
proof -
  have s: "js_split CHR '':'' (join CHR '':'' ps) = ps"
    using assms by (intro js_split_join) auto
  have "js_split CHR '':'' (join CHR '':'' ps @ ''::'') = ps @ [[], []]"
    using js_split_app [of "CHR '':''" "join CHR '':'' ps" "'':''"] by (simp add: s)
  moreover have "hd ps \<noteq> []" "[] \<notin> set ps"
    using assms by (auto simp: hd_in_set)
  then have "trim_parts (ps @ [[], []]) = ps @ [[]]"
    using assms(1) by (cases ps) (auto simp: trim_parts_def first_elem_def last_elem_def pop_def butlast_append)
  moreover have "compact_split (ps @ [[]]) = [ps, [''0'']]"
    using \<open>[] \<notin> set ps\<close> compact_split_at [of ps "[]"] by simp
  ultimately show ?thesis by (simp add: parsePossibleIpString_eq)
qed

section \<open>Counting hextets\<close>

lemma test_ipPair_eq: "test ipPair = hextet"
  by (rule ext) (rule ipPair_hextet)

lemma test_ipV4Pattern_eq: "test ipV4Pattern = dotted_quad"
  by (rule ext) (rule ipV4Pattern_iff)

lemma not_hextet_Nil: "\<not> hextet []"
  by (simp add: hextet_def)

lemma not_dotted_quad_Nil: "\<not> dotted_quad []"
  by (simp add: dotted_quad_def)

lemma isValidFullIp_Nil: "isValidFullIp [] = False"
  by (simp add: isValidFullIp_def pop_def last_elem_def nullish_def test_ipPair_eq
      test_ipV4Pattern_eq not_hextet_Nil not_dotted_quad_Nil)

lemma isValidFullIp_snoc:
  "isValidFullIp (ps @ [q]) =
     (if dotted_quad q then length ps = 6 \<and> list_all hextet ps
      else length ps = 7 \<and> list_all hextet ps \<and> hextet q)"
  by (simp add: isValidFullIp_def pop_def last_elem_def nullish_def test_ipPair_eq
      test_ipV4Pattern_eq)

lemma isValidCompactIp_snoc:
  "isValidCompactIp [left, rs @ [q]] =
     Inr (if dotted_quad q then length left + length rs \<le> 6 \<and> list_all hextet left \<and> list_all hextet rs
          else length left + length rs \<le> 7 \<and> list_all hextet left \<and> list_all hextet rs \<and> hextet q)"
  by (simp add: isValidCompactIp_def pop_def last_elem_def nullish_def test_ipPair_eq
      test_ipV4Pattern_eq)

lemma isValidIp_full:
  "s \<noteq> ''::'' \<Longrightarrow> parsePossibleIpString s = [ps] \<Longrightarrow> isValidIp (VString s) = Inr (isValidFullIp ps)"
  by (simp add: isValidIp_def)

lemma isValidIp_compact:
  "s \<noteq> ''::'' \<Longrightarrow> parsePossibleIpString s = [left, right] \<Longrightarrow>
   isValidIp (VString s) = isValidCompactIp [left, right]"
  by (simp add: isValidIp_def)

lemma hextets_parts:
  "list_all hextet hs \<Longrightarrow> \<forall>p \<in> set hs. p \<noteq> [] \<and> CHR '':'' \<notin> set p"
  using hextet_parts by (auto simp: list_all_iff)

lemma join_not_zero_address:
  assumes "ps \<noteq> []" "\<forall>p \<in> set ps. p \<noteq> [] \<and> CHR '':'' \<notin> set p"
  shows "join CHR '':'' ps \<noteq> ''::''"
proof
  assume "join CHR '':'' ps = ''::''"
  then have "js_split CHR '':'' (join CHR '':'' ps) = [[], [], []]" by simp
  moreover have "js_split CHR '':'' (join CHR '':'' ps) = ps"
    using assms by (intro js_split_join) auto
  ultimately show False using assms(2) by auto
qed

lemma isValidIp_join_hextets:
  assumes "hs \<noteq> []" "list_all hextet hs"
  shows "isValidIp (VString (join CHR '':'' hs)) = Inr (length hs = 8)"
proof -
  note p = hextets_parts [OF assms(2)]
  obtain ps q where hs: "hs = ps @ [q]" using assms(1) by (metis rev_exhaust)
  with assms(2) have h: "list_all hextet ps" "hextet q" by simp_all
  have "isValidIp (VString (join CHR '':'' hs)) = Inr (isValidFullIp hs)"
    using assms(1) p by (intro isValidIp_full join_not_zero_address parse_join)
  also have "isValidFullIp hs = (length hs = 8)"
    unfolding hs isValidFullIp_snoc using h hextet_not_dotted_quad [of q] by simp
  finally show ?thesis .
qed

text \<open>
  C5. A string of valid hextets joined by single colons, with no compaction, is accepted
  when there are exactly 8 hextets and rejected when there are exactly 7 or exactly 9.
\<close>

theorem full_form_round_count:
  "list_all hextet hs \<Longrightarrow>
     (length hs = 8 \<longrightarrow> isValidIp (VString (join CHR '':'' hs)) = Inr True) \<and>
     (length hs = 7 \<or> length hs = 9 \<longrightarrow> isValidIp (VString (join CHR '':'' hs)) = Inr False)"
proof -
  assume h: "list_all hextet hs"
  show ?thesis
  proof (cases "hs = []")
    case True
    then show ?thesis by simp
  next
    case False
    then have "isValidIp (VString (join CHR '':'' hs)) = Inr (length hs = 8)"
      using h by (rule isValidIp_join_hextets)
    then show ?thesis by simp
  qed
qed

theorem full_form_round_count_witness:
  "list_all hextet [''1'', ''22'', ''333'', ''4444'', ''aB'', ''Cd'', ''0'', ''ffff''] \<and>
   isValidIp (VString ''1:22:333:4444:aB:Cd:0:ffff'') = Inr True \<and>
   list_all hextet [''1'', ''22'', ''333'', ''4444'', ''aB'', ''Cd'', ''0''] \<and>
   isValidIp (VString ''1:22:333:4444:aB:Cd:0'') = Inr False \<and>
   list_all hextet [''1'', ''22'', ''333'', ''4444'', ''aB'', ''Cd'', ''0'', ''ffff'', ''9''] \<and>
   isValidIp (VString ''1:22:333:4444:aB:Cd:0:ffff:9'') = Inr False"
proof -
  have a: "list_all hextet [''1'', ''22'', ''333'', ''4444'', ''aB'', ''Cd'', ''0'', ''ffff'']"
    and b: "list_all hextet [''1'', ''22'', ''333'', ''4444'', ''aB'', ''Cd'', ''0'']"
    and c: "list_all hextet [''1'', ''22'', ''333'', ''4444'', ''aB'', ''Cd'', ''0'', ''ffff'', ''9'']"
    by code_simp+
  show ?thesis
    using a b c full_form_round_count [OF a] full_form_round_count [OF b]
      full_form_round_count [OF c]
    by simp
qed

lemma parse_zero_address: "parsePossibleIpString ''::'' = [[], [''0'']]"
  by code_simp

lemma hextet_zero: "hextet ''0''"
  by code_simp

lemma isValidIp_compact_any:
  assumes "parsePossibleIpString s = [left, right]"
  shows "isValidIp (VString s) = isValidCompactIp [left, right]"
proof (cases "s = ''::''")
  case True
  with assms have "left = []" "right = [] @ [''0'']" by (simp_all add: parse_zero_address)
  then have "isValidCompactIp [left, right] = Inr True"
    using hextet_zero hextet_not_dotted_quad [of "''0''"] by (simp only: isValidCompactIp_snoc) simp
  with True show ?thesis by (simp add: isValidIp_def)
next
  case False
  then show ?thesis using assms by (rule isValidIp_compact)
qed

lemma compact_accepted:
  assumes "parsePossibleIpString s = [left, right]" "isValidIp (VString s) = Inr True"
  shows "right \<noteq> [] \<and> list_all hextet left \<and> list_all hextet (butlast right) \<and>
    (if dotted_quad (last right) then length left + length (butlast right) \<le> 6
     else length left + length (butlast right) \<le> 7 \<and> hextet (last right))"
proof -
  from parse_shape [of s] assms(1) have "right \<noteq> []" by auto
  then obtain rs q where r: "right = rs @ [q]" by (metis rev_exhaust)
  from assms have "isValidCompactIp [left, rs @ [q]] = Inr True"
    by (simp add: isValidIp_compact_any r)
  then show ?thesis unfolding isValidCompactIp_snoc r by (simp split: if_splits)
qed

lemma isValidIp_trailing:
  assumes "hs \<noteq> []" "list_all hextet hs"
  shows "isValidIp (VString (join CHR '':'' hs @ ''::'')) = Inr (length hs \<le> 7)"
proof -
  note p = hextets_parts [OF assms(2)]
  have "parsePossibleIpString (join CHR '':'' hs @ ''::'') = [hs, [] @ [''0'']]"
    using assms(1) p by (simp add: parse_join_trailing)
  then have "isValidIp (VString (join CHR '':'' hs @ ''::'')) = isValidCompactIp [hs, [] @ [''0'']]"
    by (rule isValidIp_compact_any)
  also have "\<dots> = Inr (length hs \<le> 7)"
    using assms(2) hextet_zero hextet_not_dotted_quad [of "''0''"]
    by (simp only: isValidCompactIp_snoc) simp
  finally show ?thesis .
qed

text \<open>
  C3. A string of valid hextets joined by colons and followed by \<^verbatim>\<open>::\<close> is accepted
  when it has exactly 7 hextets and rejected when it has 8. More generally, whenever a
  compaction is detected and the string is accepted, \<^verbatim>\<open>left.length + right.length\<close>
  (\<^verbatim>\<open>right\<close> after the pop, the synthetic zero counted while it is still there) is at
  most 7, and at most 6 when the last part is a dotted quad.
\<close>

theorem compact_hextet_budget:
  "(list_all hextet hs \<longrightarrow>
      (length hs = 7 \<longrightarrow> isValidIp (VString (join CHR '':'' hs @ ''::'')) = Inr True) \<and>
      (length hs = 8 \<longrightarrow> isValidIp (VString (join CHR '':'' hs @ ''::'')) = Inr False)) \<and>
   (parsePossibleIpString s = [left, right] \<and> isValidIp (VString s) = Inr True \<longrightarrow>
      length left + length (butlast right) \<le> (if dotted_quad (last right) then 6 else 7))"
proof (intro conjI impI)
  assume "list_all hextet hs" "length hs = 7"
  moreover from this have "hs \<noteq> []" by auto
  ultimately show "isValidIp (VString (join CHR '':'' hs @ ''::'')) = Inr True"
    by (simp add: isValidIp_trailing)
next
  assume "list_all hextet hs" "length hs = 8"
  moreover from this have "hs \<noteq> []" by auto
  ultimately show "isValidIp (VString (join CHR '':'' hs @ ''::'')) = Inr False"
    by (simp add: isValidIp_trailing)
next
  assume "parsePossibleIpString s = [left, right] \<and> isValidIp (VString s) = Inr True"
  then show "length left + length (butlast right) \<le> (if dotted_quad (last right) then 6 else 7)"
    using compact_accepted [of s left right] by (simp split: if_splits)
qed

theorem compact_hextet_budget_witness:
  "list_all hextet [''11'', ''22'', ''33'', ''44'', ''55'', ''66'', ''77''] \<and>
   isValidIp (VString ''11:22:33:44:55:66:77::'') = Inr True \<and>
   list_all hextet [''11'', ''22'', ''33'', ''44'', ''55'', ''66'', ''77'', ''88''] \<and>
   isValidIp (VString ''11:22:33:44:55:66:77:88::'') = Inr False \<and>
   parsePossibleIpString ''11::33:44:0:66:192.168.0.3'' = [[''11''], [''0'', ''33'', ''44'', ''0'', ''66'', ''192.168.0.3'']] \<and>
   isValidIp (VString ''11::33:44:0:66:192.168.0.3'') = Inr True \<and>
   dotted_quad ''192.168.0.3'' \<and>
   length [''11''] + length (butlast [''0'', ''33'', ''44'', ''0'', ''66'', ''192.168.0.3'']) \<le> 6"
proof -
  have a: "list_all hextet [''11'', ''22'', ''33'', ''44'', ''55'', ''66'', ''77'']"
    and b: "list_all hextet [''11'', ''22'', ''33'', ''44'', ''55'', ''66'', ''77'', ''88'']"
    and c: "parsePossibleIpString ''11::33:44:0:66:192.168.0.3'' = [[''11''], [''0'', ''33'', ''44'', ''0'', ''66'', ''192.168.0.3'']]"
    and d: "isValidIp (VString ''11::33:44:0:66:192.168.0.3'') = Inr True"
    and e: "test ipV4Pattern ''192.168.0.3''"
    by code_simp+
  from e have f: "dotted_quad ''192.168.0.3''" by (simp only: ipV4Pattern_iff)
  show ?thesis
    using a b c d f
      compact_hextet_budget [of "[''11'', ''22'', ''33'', ''44'', ''55'', ''66'', ''77'']"
        "''11::33:44:0:66:192.168.0.3''" "[''11'']" "[''0'', ''33'', ''44'', ''0'', ''66'', ''192.168.0.3'']"]
      compact_hextet_budget [of "[''11'', ''22'', ''33'', ''44'', ''55'', ''66'', ''77'', ''88'']"
        "''11::33:44:0:66:192.168.0.3''" "[''11'']" "[''0'', ''33'', ''44'', ''0'', ''66'', ''192.168.0.3'']"]
    by simp
qed

text \<open>
  C4. An embedded IPv4 suffix takes one unit of the hextet budget. In full form, a list
  of parts whose last part is a dotted quad is accepted by \<^verbatim>\<open>isValidFullIp\<close> exactly
  when 6 valid hextets precede it, and so is the string that joins such parts (each part
  not empty and without a colon) with colons. In compact form, an accepted string whose
  last part is a dotted quad has \<^verbatim>\<open>left.length + right.length\<close> at most 6 and only
  valid hextets before the suffix.
\<close>

theorem ipv4_suffix_budget:
  "(dotted_quad q \<longrightarrow> isValidFullIp (ps @ [q]) = (length ps = 6 \<and> list_all hextet ps)) \<and>
   (dotted_quad q \<and> (\<forall>p \<in> set ps. p \<noteq> [] \<and> CHR '':'' \<notin> set p) \<longrightarrow>
      isValidIp (VString (join CHR '':'' (ps @ [q]))) = Inr (length ps = 6 \<and> list_all hextet ps)) \<and>
   (parsePossibleIpString s = [left, right] \<and> dotted_quad (last right) \<and>
    isValidIp (VString s) = Inr True \<longrightarrow>
      length left + length (butlast right) \<le> 6 \<and>
      list_all hextet left \<and> list_all hextet (butlast right))"
proof -
  have full: "isValidFullIp (ps @ [q]) = (length ps = 6 \<and> list_all hextet ps)" if "dotted_quad q"
    using that by (simp add: isValidFullIp_snoc)
  have str: "isValidIp (VString (join CHR '':'' (ps @ [q]))) = Inr (length ps = 6 \<and> list_all hextet ps)"
    if "dotted_quad q" "\<forall>p \<in> set ps. p \<noteq> [] \<and> CHR '':'' \<notin> set p"
  proof -
    have p: "\<forall>p \<in> set (ps @ [q]). p \<noteq> [] \<and> CHR '':'' \<notin> set p"
      using that dotted_quad_parts [of q] by auto
    have "isValidIp (VString (join CHR '':'' (ps @ [q]))) = Inr (isValidFullIp (ps @ [q]))"
      using p by (intro isValidIp_full join_not_zero_address parse_join) simp_all
    with that(1) show ?thesis by (simp add: isValidFullIp_snoc)
  qed
  have compact: "length left + length (butlast right) \<le> 6 \<and>
      list_all hextet left \<and> list_all hextet (butlast right)"
    if "parsePossibleIpString s = [left, right]" "dotted_quad (last right)"
      "isValidIp (VString s) = Inr True"
    using compact_accepted [OF that(1) that(3)] that(2) by simp
  from full str compact show ?thesis by blast
qed

theorem ipv4_suffix_budget_witness:
  "dotted_quad ''192.168.0.1'' \<and>
   isValidFullIp [''1'', ''2'', ''3'', ''4'', ''5'', ''6'', ''192.168.0.1''] \<and>
   isValidIp (VString ''1:2:3:4:5:6:192.168.0.1'') = Inr True \<and>
   parsePossibleIpString ''11::33:192.168.0.1'' = [[''11''], [''0'', ''33'', ''192.168.0.1'']] \<and>
   isValidIp (VString ''11::33:192.168.0.1'') = Inr True \<and>
   length [''11''] + length (butlast [''0'', ''33'', ''192.168.0.1'']) \<le> 6 \<and>
   list_all hextet [''11''] \<and> list_all hextet (butlast [''0'', ''33'', ''192.168.0.1''])"
proof -
  have a: "test ipV4Pattern ''192.168.0.1''"
    and b: "\<forall>p \<in> set [''1'', ''2'', ''3'', ''4'', ''5'', ''6'']. p \<noteq> [] \<and> CHR '':'' \<notin> set p"
    and c: "parsePossibleIpString ''11::33:192.168.0.1'' = [[''11''], [''0'', ''33'', ''192.168.0.1'']]"
    and d: "isValidIp (VString ''11::33:192.168.0.1'') = Inr True"
    and e: "list_all hextet [''1'', ''2'', ''3'', ''4'', ''5'', ''6'']"
    by code_simp+
  from a have f: "dotted_quad ''192.168.0.1''" by (simp only: ipV4Pattern_iff)
  show ?thesis
    using b c d e f
      ipv4_suffix_budget [of "''192.168.0.1''" "[''1'', ''2'', ''3'', ''4'', ''5'', ''6'']"
        "''11::33:192.168.0.1''" "[''11'']" "[''0'', ''33'', ''192.168.0.1'']"]
    by simp
qed

section \<open>Stray colons\<close>

lemma hd_js_split: "hd (js_split c s) = [] \<longleftrightarrow> s = [] \<or> starts_with c s"
  by (cases s) (auto simp: starts_with_def split: list.splits)

lemma js_split_snoc_other:
  "x \<noteq> c \<Longrightarrow> js_split c (t @ [x]) = butlast (js_split c t) @ [last (js_split c t) @ [x]]"
proof (induction t)
  case Nil
  then show ?case by simp
next
  case (Cons y t)
  obtain p ps where e: "js_split c t = p # ps"
    using js_split_nonempty [of c t] by (cases "js_split c t") auto
  with Cons show ?case by (cases ps) auto
qed

lemma last_js_split: "last (js_split c s) = [] \<longleftrightarrow> s = [] \<or> ends_with c s"
proof (cases s rule: rev_cases)
  case Nil
  then show ?thesis by simp
next
  case (snoc t x)
  show ?thesis
  proof (cases "x = c")
    case True
    with snoc show ?thesis by (simp add: js_split_snoc_sep ends_with_def)
  next
    case False
    with snoc show ?thesis by (simp add: js_split_snoc_other ends_with_def)
  qed
qed

lemma trim_leading_colon:
  assumes "\<not> starts_with CHR '':'' s"
  shows "trim_parts ([] # js_split CHR '':'' s) = trim_parts (js_split CHR '':'' s)"
proof (cases "s = []")
  case True
  then show ?thesis by (simp add: trim_parts_def first_elem_def last_elem_def shift_def pop_def)
next
  case False
  obtain p ps where e: "js_split CHR '':'' s = p # ps"
    using js_split_nonempty [of "CHR '':''" s] by (cases "js_split CHR '':'' s") auto
  with hd_js_split [of "CHR '':''" s] assms False have "p \<noteq> []" by simp
  with e show ?thesis by (simp add: trim_parts_def first_elem_def shift_def)
qed

lemma trim_trailing_colon:
  assumes "\<not> ends_with CHR '':'' s"
  shows "trim_parts (js_split CHR '':'' (s @ '':'')) = trim_parts (js_split CHR '':'' s)"
proof (cases "s = []")
  case True
  then show ?thesis by (simp add: trim_parts_def first_elem_def last_elem_def shift_def pop_def)
next
  case False
  obtain p ps where e: "js_split CHR '':'' s = p # ps"
    using js_split_nonempty [of "CHR '':''" s] by (cases "js_split CHR '':'' s") auto
  have l: "last (p # ps) \<noteq> []"
    using last_js_split [of "CHR '':''" s] assms False e by simp
  have s: "js_split CHR '':'' (s @ '':'') = p # ps @ [[]]"
    by (simp add: js_split_snoc_sep e)
  show ?thesis
  proof (cases "p = []")
    case True
    with l have "ps \<noteq> []" by auto
    with True l show ?thesis
      unfolding s e by (simp add: trim_parts_def first_elem_def last_elem_def shift_def pop_def)
  next
    case False
    with l show ?thesis
      unfolding s e
      by (simp add: trim_parts_def first_elem_def last_elem_def shift_def pop_def butlast_append)
  qed
qed

lemma isValidIp_same_parse:
  "s \<noteq> ''::'' \<Longrightarrow> t \<noteq> ''::'' \<Longrightarrow> parsePossibleIpString s = parsePossibleIpString t \<Longrightarrow>
   isValidIp (VString s) = isValidIp (VString t)"
  by (simp add: isValidIp_def)

lemma leading_colon_verdict:
  assumes "\<not> starts_with CHR '':'' s"
  shows "isValidIp (VString (CHR '':'' # s)) = isValidIp (VString s)"
proof -
  from assms have "CHR '':'' # s \<noteq> ''::''" "s \<noteq> ''::''" by (auto simp: starts_with_def)
  then show ?thesis
    using assms by (intro isValidIp_same_parse) (simp_all add: parsePossibleIpString_eq trim_leading_colon)
qed

lemma trailing_colon_verdict:
  assumes "\<not> ends_with CHR '':'' s"
  shows "isValidIp (VString (s @ '':'')) = isValidIp (VString s)"
proof -
  from assms have "s @ '':'' \<noteq> ''::''" "s \<noteq> ''::''" by (auto simp: ends_with_def)
  then show ?thesis
    using assms by (intro isValidIp_same_parse) (simp_all add: parsePossibleIpString_eq trim_trailing_colon)
qed

section \<open>More than one compaction marker\<close>

lemma markers_split:
  "markers s = count_list (butlast (tl (js_split CHR '':'' s))) []"
proof (induction s rule: markers.induct)
  case (1 a b r)
  obtain p ps where e: "js_split CHR '':'' (b # r) = p # ps"
    using js_split_nonempty [of "CHR '':''" "b # r"] by (cases "js_split CHR '':'' (b # r)") auto
  have p: "(ps \<noteq> [] \<and> p = []) \<longleftrightarrow> b = CHR '':''"
    using e js_split_nonempty [of "CHR '':''" r] by (auto split: if_splits list.splits)
  have ih: "markers (b # r) = count_list (butlast ps) []"
    using "1.IH" unfolding e by simp
  show ?case
  proof (cases "a = CHR '':''")
    case True
    have "js_split CHR '':'' (a # b # r) = [] # p # ps" using True e by simp
    then have "count_list (butlast (tl (js_split CHR '':'' (a # b # r)))) []
        = (if ps \<noteq> [] \<and> p = [] then 1 else 0) + count_list (butlast ps) []"
      by auto
    with True p ih show ?thesis by simp
  next
    case False
    have "js_split CHR '':'' (a # b # r) = (a # p) # ps" using False e by simp
    with False ih show ?thesis by simp
  qed
qed simp_all

lemma count_list_tl: "count_list (tl xs) y \<le> count_list xs y"
  by (cases xs) auto

lemma count_list_butlast: "count_list (butlast xs) y \<le> count_list xs y"
  by (induction xs) auto

lemma count_trim: "count_list (butlast (tl ps)) [] \<le> count_list (trim_parts ps) []"
proof -
  have a: "count_list (butlast (tl ps)) [] \<le> count_list (tl ps) []"
    by (rule count_list_butlast)
  have b: "count_list (butlast (tl ps)) [] \<le> count_list (butlast ps) []"
    using count_list_tl [of "butlast ps" "[]"] by (simp add: butlast_tl)
  have c: "count_list (butlast (tl ps)) [] \<le> count_list ps []"
    using a count_list_tl [of ps "[]"] by simp
  show ?thesis
    using a b c by (simp add: trim_parts_def Let_def shift_def pop_def)
qed

lemma two_empties:
  "2 \<le> count_list ps y \<Longrightarrow> \<exists>ls rs. ps = ls @ y # rs \<and> y \<notin> set ls \<and> y \<in> set rs"
proof (induction ps)
  case Nil
  then show ?case by simp
next
  case (Cons x ps)
  show ?case
  proof (cases "x = y")
    case True
    with Cons.prems have "count_list ps y \<noteq> 0" by simp
    then have "y \<in> set ps" by (simp add: count_list_0_iff)
    with True show ?thesis by (intro exI [of _ "[]"] exI [of _ ps]) simp
  next
    case False
    with Cons obtain ls rs where "ps = ls @ y # rs" "y \<notin> set ls" "y \<in> set rs" by auto
    with False show ?thesis by (intro exI [of _ "x # ls"] exI [of _ rs]) simp
  qed
qed

lemma compact_rejects_empty:
  assumes "[] \<in> set rs"
  shows "isValidCompactIp [left, ''0'' # rs] = Inr False"
proof -
  from assms obtain ts q where r: "rs = ts @ [q]" by (cases rs rule: rev_cases) auto
  have "isValidCompactIp [left, (''0'' # ts) @ [q]] = Inr False"
  proof (cases "q = []")
    case True
    then show ?thesis
      by (simp only: isValidCompactIp_snoc) (simp add: not_hextet_Nil not_dotted_quad_Nil)
  next
    case False
    with assms r have "[] \<in> set ts" by auto
    then have "\<not> list_all hextet (''0'' # ts)"
      using not_hextet_Nil by (auto simp: list_all_iff)
    then show ?thesis by (simp only: isValidCompactIp_snoc) simp
  qed
  then show ?thesis by (simp add: r)
qed

lemma two_markers_parse:
  assumes "2 \<le> markers s"
  shows "\<exists>left rest. parsePossibleIpString s = [left, ''0'' # rest] \<and> [] \<in> set rest"
proof -
  have "2 \<le> count_list (trim_parts (js_split CHR '':'' s)) []"
    using assms count_trim [of "js_split CHR '':'' s"] by (simp add: markers_split)
  from two_empties [OF this] obtain ls rs
    where "trim_parts (js_split CHR '':'' s) = ls @ [] # rs" "[] \<notin> set ls" "[] \<in> set rs"
    by blast
  then show ?thesis by (simp add: parsePossibleIpString_eq compact_split_at)
qed

text \<open>
  C7. A string with two or more compaction markers is rejected: the parts are cut at the
  first empty part, an empty part is left in the right half after the synthetic zero,
  and it fails the hextet test, as an inner part or as the last one.
\<close>

theorem two_markers_rejected:
  "2 \<le> markers s \<Longrightarrow>
     isValidIp (VString s) = Inr False \<and>
     (\<exists>left rest. parsePossibleIpString s = [left, ''0'' # rest] \<and> [] \<in> set rest)"
proof -
  assume m: "2 \<le> markers s"
  then obtain left rest where p: "parsePossibleIpString s = [left, ''0'' # rest]" "[] \<in> set rest"
    using two_markers_parse by blast
  from p(1) have "isValidIp (VString s) = isValidCompactIp [left, ''0'' # rest]"
    by (rule isValidIp_compact_any)
  with p show ?thesis by (simp add: compact_rejects_empty)
qed

theorem two_markers_rejected_witness:
  "2 \<le> markers ''11::22::33'' \<and> isValidIp (VString ''11::22::33'') = Inr False \<and>
   (\<exists>left rest. parsePossibleIpString ''11::22::33'' = [left, ''0'' # rest] \<and> [] \<in> set rest)"
proof -
  have h: "2 \<le> markers ''11::22::33''" by code_simp
  show ?thesis using h two_markers_rejected [OF h] by simp
qed

text \<open>
  C9. One stray colon at an end does not change the verdict: for a string \<open>s\<close> that
  does not begin with a colon, \<^verbatim>\<open>':' + s\<close> gets the verdict of \<open>s\<close>, and for a
  string that does not end with a colon, \<^verbatim>\<open>s + ':'\<close> gets the verdict of \<open>s\<close>. So
  \<^verbatim>\<open>:1:2:3:4:5:6:7:8\<close>, which is not an IPv6 literal, is accepted as
  \<^verbatim>\<open>1:2:3:4:5:6:7:8\<close> is.
\<close>

theorem stray_colon_ignored:
  "(\<not> starts_with CHR '':'' s \<longrightarrow>
      isValidIp (VString (CHR '':'' # s)) = isValidIp (VString s)) \<and>
   (\<not> ends_with CHR '':'' s \<longrightarrow>
      isValidIp (VString (s @ '':'')) = isValidIp (VString s)) \<and>
   \<not> ipv6_literal '':1:2:3:4:5:6:7:8'' \<and>
   isValidIp (VString '':1:2:3:4:5:6:7:8'') = Inr True \<and>
   isValidIp (VString ''1:2:3:4:5:6:7:8'') = Inr True"
proof -
  have "\<not> ipv6_literal '':1:2:3:4:5:6:7:8''" by code_simp
  moreover have a: "isValidIp (VString ''1:2:3:4:5:6:7:8'') = Inr True" by code_simp
  moreover have "\<not> starts_with CHR '':'' ''1:2:3:4:5:6:7:8''" by (simp add: starts_with_def)
  then have "isValidIp (VString (CHR '':'' # ''1:2:3:4:5:6:7:8'')) = Inr True"
    using leading_colon_verdict [of "''1:2:3:4:5:6:7:8''"] a by simp
  ultimately show ?thesis
    using leading_colon_verdict [of s] trailing_colon_verdict [of s] by simp
qed

theorem stray_colon_ignored_witness:
  "\<not> starts_with CHR '':'' ''1::2'' \<and> \<not> ends_with CHR '':'' ''1::2'' \<and>
   isValidIp (VString '':1::2'') = Inr True \<and> isValidIp (VString ''1::2:'') = Inr True \<and>
   isValidIp (VString ''1::2'') = Inr True"
proof -
  have a: "\<not> starts_with CHR '':'' ''1::2''" "\<not> ends_with CHR '':'' ''1::2''"
    "isValidIp (VString ''1::2'') = Inr True"
    by code_simp+
  show ?thesis using a stray_colon_ignored [of "''1::2''"] by simp
qed

section \<open>The validator and the grammar\<close>

text \<open>
  Every IPv6 literal is accepted (\<open>literal_accepted\<close>), and on the strings without a
  stray colon the validator accepts nothing else (\<open>clean_accepted_literal\<close>).
\<close>

lemma full_form_code: "full_form s = isValidFullIp (js_split CHR '':'' s)"
proof -
  obtain qs q where e: "js_split CHR '':'' s = qs @ [q]"
    using js_split_nonempty [of "CHR '':''" s] by (metis rev_exhaust)
  show ?thesis
    unfolding full_form_def Let_def e isValidFullIp_snoc
    using hextet_not_dotted_quad [of q] by auto
qed

lemma compact_form_iff: "compact_form s \<longleftrightarrow> (\<exists>l r. s = l @ ''::'' @ r \<and> compact_at l r)"
proof
  assume "compact_form s"
  then obtain i where i: "i < length s" "take 2 (drop i s) = ''::''"
    "compact_at (take i s) (drop (i + 2) s)"
    by (auto simp: compact_form_def list_ex_iff)
  have "drop i s = take 2 (drop i s) @ drop 2 (drop i s)"
    by (simp only: append_take_drop_id)
  then have "drop i s = ''::'' @ drop (i + 2) s"
    by (simp only: i(2) drop_drop add.commute)
  moreover have "s = take i s @ drop i s" by (simp only: append_take_drop_id)
  ultimately have "s = take i s @ ''::'' @ drop (i + 2) s" by simp
  with i(3) show "\<exists>l r. s = l @ ''::'' @ r \<and> compact_at l r" by blast
next
  assume "\<exists>l r. s = l @ ''::'' @ r \<and> compact_at l r"
  then obtain l r where s: "s = l @ ''::'' @ r" and c: "compact_at l r" by blast
  have "length l < length s" "take 2 (drop (length l) s) = ''::''"
    "take (length l) s = l" "drop (length l + 2) s = r"
    by (simp_all add: s)
  with c show "compact_form s"
    unfolding compact_form_def list_ex_iff by (intro bexI [of _ "length l"]) simp_all
qed

lemma js_split_marker:
  "js_split CHR '':'' (l @ ''::'' @ r) = js_split CHR '':'' l @ [] # js_split CHR '':'' r"
  using js_split_app [of "CHR '':''" l "CHR '':'' # r"] by simp

lemma js_split_single: "js_split c s = [[]] \<longleftrightarrow> s = []"
proof (cases s)
  case Nil
  then show ?thesis by simp
next
  case (Cons x xs)
  obtain p ps where "js_split c xs = p # ps"
    using js_split_nonempty [of c xs] by (cases "js_split c xs") auto
  with Cons show ?thesis by auto
qed

lemma groups_split:
  "js_split CHR '':'' t = (if t = [] then [[]] else groups t)"
  by (simp add: groups_def)

lemma groups_nonempty: "t \<noteq> [] \<Longrightarrow> groups t \<noteq> []"
  by (simp add: groups_def js_split_nonempty)

lemma trim_around_marker:
  assumes "[] \<notin> set (groups l)" "[] \<notin> set (groups r)"
  shows "trim_parts (js_split CHR '':'' l @ [] # js_split CHR '':'' r) = groups l @ [] # groups r"
proof -
  have L: "l \<noteq> [] \<Longrightarrow> hd (groups l) \<noteq> []"
    using assms(1) groups_nonempty [of l] by (metis hd_in_set)
  have R: "r \<noteq> [] \<Longrightarrow> last (groups r) \<noteq> []"
    using assms(2) groups_nonempty [of r] by (metis last_in_set)
  show ?thesis
  proof (cases "l = []")
    case l: True
    show ?thesis
    proof (cases "r = []")
      case True
      with l show ?thesis
        by (simp add: groups_def trim_parts_def first_elem_def last_elem_def shift_def pop_def)
    next
      case False
      with l R groups_nonempty [of r] show ?thesis
        by (simp add: groups_split trim_parts_def first_elem_def last_elem_def shift_def pop_def)
          (simp add: groups_def)
    qed
  next
    case l: False
    then obtain p ps where g: "groups l = p # ps" "p \<noteq> []"
      using L groups_nonempty [of l] by (cases "groups l") auto
    show ?thesis
    proof (cases "r = []")
      case True
      with l g show ?thesis
        by (simp add: groups_split trim_parts_def first_elem_def last_elem_def shift_def pop_def
            butlast_append)
          (simp add: groups_def)
    next
      case False
      with l g R groups_nonempty [of r] show ?thesis
        by (simp add: groups_split trim_parts_def first_elem_def last_elem_def shift_def pop_def)
    qed
  qed
qed

lemma compact_code:
  "isValidCompactIp [ls, ''0'' # rs] =
     Inr (list_all hextet ls \<and>
          ((list_all hextet rs \<and> length ls + length rs \<le> 7) \<or>
           (rs \<noteq> [] \<and> list_all hextet (butlast rs) \<and> dotted_quad (last rs) \<and>
            length ls + length (butlast rs) \<le> 5)))"
proof (cases rs rule: rev_cases)
  case Nil
  have "isValidCompactIp [ls, [] @ [''0'']] = Inr (list_all hextet ls \<and> length ls \<le> 7)"
    using hextet_zero hextet_not_dotted_quad [of "''0''"]
    by (simp only: isValidCompactIp_snoc) auto
  with Nil show ?thesis by simp
next
  case (snoc ts q)
  have "isValidCompactIp [ls, (''0'' # ts) @ [q]] =
      Inr (list_all hextet ls \<and>
          ((list_all hextet ts \<and> hextet q \<and> length ls + length ts + 1 \<le> 7) \<or>
           (list_all hextet ts \<and> dotted_quad q \<and> length ls + length ts \<le> 5)))"
    using hextet_zero hextet_not_dotted_quad [of q]
    by (simp only: isValidCompactIp_snoc) auto
  with snoc show ?thesis by simp
qed

lemma compact_code_at: "isValidCompactIp [groups l, ''0'' # groups r] = Inr (compact_at l r)"
  by (simp add: compact_code compact_at_def Let_def)

lemma compact_at_parts:
  assumes "compact_at l r"
  shows "[] \<notin> set (groups l)" "[] \<notin> set (groups r)"
proof -
  from assms have l: "list_all hextet (groups l)"
    and r: "list_all hextet (groups r) \<or>
      (groups r \<noteq> [] \<and> list_all hextet (butlast (groups r)) \<and> dotted_quad (last (groups r)))"
    by (auto simp: compact_at_def Let_def)
  from l show "[] \<notin> set (groups l)" using not_hextet_Nil by (auto simp: list_all_iff)
  from r show "[] \<notin> set (groups r)"
  proof
    assume "list_all hextet (groups r)"
    then show ?thesis using not_hextet_Nil by (auto simp: list_all_iff)
  next
    assume a: "groups r \<noteq> [] \<and> list_all hextet (butlast (groups r)) \<and> dotted_quad (last (groups r))"
    then obtain ts q where g: "groups r = ts @ [q]" by (metis rev_exhaust)
    with a have "list_all hextet ts" "dotted_quad q" by simp_all
    then show ?thesis
      unfolding g using not_hextet_Nil not_dotted_quad_Nil by (auto simp: list_all_iff)
  qed
qed

lemma compact_literal_accepted:
  assumes "compact_at l r"
  shows "isValidIp (VString (l @ ''::'' @ r)) = Inr True"
proof -
  note p = compact_at_parts [OF assms]
  have "parsePossibleIpString (l @ ''::'' @ r) = [groups l, ''0'' # groups r]"
    unfolding parsePossibleIpString_eq js_split_marker
    by (simp only: trim_around_marker [OF p] compact_split_at [OF p(1)])
  then have "isValidIp (VString (l @ ''::'' @ r)) = isValidCompactIp [groups l, ''0'' # groups r]"
    by (rule isValidIp_compact_any)
  with assms show ?thesis by (simp add: compact_code_at)
qed

lemma isValidFullIp_parts: "isValidFullIp ps \<Longrightarrow> ps \<noteq> [] \<and> [] \<notin> set ps"
proof -
  assume a: "isValidFullIp ps"
  then have n: "ps \<noteq> []" using isValidFullIp_Nil by auto
  then obtain qs q where e: "ps = qs @ [q]" by (metis rev_exhaust)
  from a have "list_all hextet qs" "hextet q \<or> dotted_quad q"
    unfolding e isValidFullIp_snoc by (auto split: if_splits)
  then have "[] \<notin> set (qs @ [q])"
    using not_hextet_Nil not_dotted_quad_Nil by (auto simp: list_all_iff)
  with n e show ?thesis by simp
qed

lemma split_zero_address: "js_split CHR '':'' ''::'' = [[], [], []]"
  by simp

lemma full_literal_accepted:
  assumes "full_form s"
  shows "isValidIp (VString s) = Inr True"
proof -
  let ?ps = "js_split CHR '':'' s"
  from assms have v: "isValidFullIp ?ps" by (simp add: full_form_code)
  then have p: "?ps \<noteq> []" "[] \<notin> set ?ps" using isValidFullIp_parts by blast+
  then have "hd ?ps \<noteq> []" "last ?ps \<noteq> []" by (metis hd_in_set, metis last_in_set)
  with p have "parsePossibleIpString s = [?ps]"
    by (simp add: parsePossibleIpString_eq trim_parts_clean compact_split_full)
  moreover have "s \<noteq> ''::''" using p(2) by auto
  ultimately have "isValidIp (VString s) = Inr (isValidFullIp ?ps)" by (intro isValidIp_full)
  with v show ?thesis by simp
qed

lemma literal_accepted: "ipv6_literal s \<Longrightarrow> isValidIp (VString s) = Inr True"
  unfolding ipv6_literal_def compact_form_iff
  using full_literal_accepted compact_literal_accepted by blast

lemma starts_with_iff: "starts_with c s \<longleftrightarrow> (\<exists>w. s = c # w)"
  by (cases s) (auto simp: starts_with_def)

lemma ends_with_iff: "ends_with c s \<longleftrightarrow> (\<exists>w. s = w @ [c])"
  by (cases s rule: rev_cases) (auto simp: ends_with_def)

lemma join_append:
  "xs \<noteq> [] \<Longrightarrow> ys \<noteq> [] \<Longrightarrow> join c (xs @ ys) = join c xs @ c # join c ys"
proof (induction xs)
  case Nil
  then show ?case by simp
next
  case (Cons x xs)
  show ?case
  proof (cases "xs = []")
    case True
    with Cons.prems show ?thesis by (simp add: join_Cons)
  next
    case False
    with Cons show ?thesis by (simp add: join_Cons)
  qed
qed

lemma join_nonempty: "ps \<noteq> [] \<Longrightarrow> hd ps \<noteq> [] \<Longrightarrow> join c ps \<noteq> []"
  by (cases ps; cases "tl ps") auto

lemma groups_join:
  assumes "[] \<notin> set ls" "\<forall>p \<in> set ls. CHR '':'' \<notin> set p"
  shows "groups (join CHR '':'' ls) = ls"
proof (cases "ls = []")
  case True
  then show ?thesis by (simp add: groups_def)
next
  case False
  with assms(1) have "hd ls \<noteq> []" by (metis hd_in_set)
  with False have "join CHR '':'' ls \<noteq> []" by (rule join_nonempty)
  moreover have "js_split CHR '':'' (join CHR '':'' ls) = ls"
    using False assms(2) by (rule js_split_join)
  ultimately show ?thesis by (simp add: groups_def)
qed

text \<open>What the compact check demands of the two halves.\<close>

lemma compact_code_parts:
  assumes "isValidCompactIp [ls, ''0'' # rs] = Inr True"
  shows "[] \<notin> set ls" "[] \<notin> set rs"
proof -
  have "\<not> [] \<in> set ls"
  proof
    assume "[] \<in> set ls"
    then have "\<not> list_all hextet ls" using not_hextet_Nil by (auto simp: list_all_iff)
    with assms show False by (simp add: compact_code)
  qed
  then show "[] \<notin> set ls" .
  have "\<not> [] \<in> set rs"
  proof
    assume "[] \<in> set rs"
    then have "isValidCompactIp [ls, ''0'' # rs] = Inr False" by (rule compact_rejects_empty)
    with assms show False by simp
  qed
  then show "[] \<notin> set rs" .
qed

lemma compact_at_groups:
  assumes "isValidCompactIp [ls, ''0'' # rs] = Inr True" "groups l = ls" "groups r = rs"
  shows "compact_at l r"
  using assms compact_code_at [of l r] by simp

lemma accepted_inner_marker:
  assumes s: "s \<noteq> []" "\<not> starts_with CHR '':'' s" "\<not> ends_with CHR '':'' s"
    and v: "isValidIp (VString s) = Inr True"
  shows "ipv6_literal s"
proof -
  let ?ps = "js_split CHR '':'' s"
  have ne: "?ps \<noteq> []" by (rule js_split_nonempty)
  have h: "hd ?ps \<noteq> []" using s by (simp add: hd_js_split)
  have l: "last ?ps \<noteq> []" using s by (simp add: last_js_split)
  have t: "trim_parts ?ps = ?ps" using ne h l by (rule trim_parts_clean)
  show ?thesis
  proof (cases "[] \<in> set ?ps")
    case False
    then have "parsePossibleIpString s = [?ps]"
      by (simp add: parsePossibleIpString_eq t compact_split_full)
    moreover have "s \<noteq> ''::''" using False by auto
    ultimately have "isValidIp (VString s) = Inr (isValidFullIp ?ps)" by (intro isValidIp_full)
    with v show ?thesis by (simp add: ipv6_literal_def full_form_code)
  next
    case True
    then obtain ls rs where e: "?ps = ls @ [] # rs" and ls: "[] \<notin> set ls"
      by (metis split_list_first)
    have "trim_parts ?ps = ls @ [] # rs" using t e by simp
    then have "parsePossibleIpString s = [ls, ''0'' # rs]"
      by (simp only: parsePossibleIpString_eq compact_split_at [OF ls])
    then have c: "isValidCompactIp [ls, ''0'' # rs] = Inr True"
      using v by (simp add: isValidIp_compact_any)
    then have rs: "[] \<notin> set rs" by (rule compact_code_parts)
    have lne: "ls \<noteq> []" using h e by (cases ls) auto
    have rne: "rs \<noteq> []" using l e by (cases rs) auto
    have free: "\<forall>p \<in> set ls. CHR '':'' \<notin> set p" "\<forall>p \<in> set rs. CHR '':'' \<notin> set p"
      using js_split_sep_free [of _ "CHR '':''" s] e by auto
    have "s = join CHR '':'' (ls @ [] # rs)"
      using join_js_split [of "CHR '':''" s] e by simp
    also have "\<dots> = join CHR '':'' ls @ CHR '':'' # join CHR '':'' ([] # rs)"
      using lne by (intro join_append) simp_all
    also have "join CHR '':'' ([] # rs) = CHR '':'' # join CHR '':'' rs"
      using rne by (simp add: join_Cons)
    finally have "s = join CHR '':'' ls @ ''::'' @ join CHR '':'' rs" by simp
    moreover have "compact_at (join CHR '':'' ls) (join CHR '':'' rs)"
      using c by (rule compact_at_groups) (simp_all add: groups_join ls rs free)
    ultimately have "compact_form s" unfolding compact_form_iff by blast
    then show ?thesis by (simp add: ipv6_literal_def)
  qed
qed

lemma accepted_leading_marker:
  assumes s: "w \<noteq> []" "\<not> ends_with CHR '':'' w"
    and v: "isValidIp (VString (''::'' @ w)) = Inr True"
  shows "ipv6_literal (''::'' @ w)"
proof -
  let ?qs = "js_split CHR '':'' w"
  have ne: "?qs \<noteq> []" by (rule js_split_nonempty)
  have l: "last ?qs \<noteq> []" using s by (simp add: last_js_split)
  have "trim_parts (js_split CHR '':'' (''::'' @ w)) = [] @ [] # ?qs"
    using ne l by (simp add: trim_parts_def first_elem_def last_elem_def shift_def)
  moreover have "compact_split ([] @ [] # ?qs) = [[], ''0'' # ?qs]"
    by (rule compact_split_at) simp
  ultimately have "parsePossibleIpString (''::'' @ w) = [[], ''0'' # ?qs]"
    by (simp only: parsePossibleIpString_eq)
  then have "isValidCompactIp [[], ''0'' # ?qs] = Inr True"
    using v by (simp add: isValidIp_compact_any)
  then have "compact_at [] w"
    by (rule compact_at_groups) (simp_all add: groups_def s(1))
  then have "compact_form ([] @ ''::'' @ w)" unfolding compact_form_iff by blast
  then show ?thesis by (simp add: ipv6_literal_def)
qed

lemma accepted_trailing_marker:
  assumes s: "w \<noteq> []" "\<not> starts_with CHR '':'' w"
    and v: "isValidIp (VString (w @ ''::'')) = Inr True"
  shows "ipv6_literal (w @ ''::'')"
proof -
  let ?qs = "js_split CHR '':'' w"
  have ne: "?qs \<noteq> []" by (rule js_split_nonempty)
  have h: "hd ?qs \<noteq> []" using s by (simp add: hd_js_split)
  have sp: "js_split CHR '':'' (w @ ''::'') = ?qs @ [[], []]"
    using js_split_marker [of w "[]"] by simp
  have t: "trim_parts (?qs @ [[], []]) = ?qs @ [[]]"
    using ne h by (cases ?qs) (auto simp: trim_parts_def first_elem_def last_elem_def pop_def butlast_append)
  show ?thesis
  proof (cases "[] \<in> set ?qs")
    case False
    then have "parsePossibleIpString (w @ ''::'') = [?qs, [''0'']]"
      using compact_split_at [of ?qs "[]"] by (simp add: parsePossibleIpString_eq sp t)
    then have "isValidCompactIp [?qs, ''0'' # []] = Inr True"
      using v by (simp add: isValidIp_compact_any)
    then have "compact_at w []"
      by (rule compact_at_groups) (simp_all add: groups_def s(1))
    then have "compact_form (w @ ''::'' @ [])" unfolding compact_form_iff by blast
    then show ?thesis by (simp add: ipv6_literal_def)
  next
    case True
    then obtain ls rs where e: "?qs = ls @ [] # rs" and ls: "[] \<notin> set ls"
      by (metis split_list_first)
    have "trim_parts (js_split CHR '':'' (w @ ''::'')) = ls @ [] # (rs @ [[]])"
      using t e by (simp add: sp)
    then have "parsePossibleIpString (w @ ''::'') = [ls, ''0'' # (rs @ [[]])]"
      by (simp only: parsePossibleIpString_eq compact_split_at [OF ls])
    then have "isValidCompactIp [ls, ''0'' # (rs @ [[]])] = Inr True"
      using v by (simp add: isValidIp_compact_any)
    then have "[] \<notin> set (rs @ [[]])" by (rule compact_code_parts)
    then show ?thesis by simp
  qed
qed

lemma rejected_both_markers:
  assumes s: "w \<noteq> []" "ends_with CHR '':'' w" "ends_with CHR '':'' (''::'' @ butlast w)"
  shows "isValidIp (VString (''::'' @ w)) = Inr False"
proof -
  let ?u = "butlast w"
  let ?qs = "js_split CHR '':'' ?u"
  have w: "w = ?u @ '':''"
    using s(1,2) append_butlast_last_id [of w] by (simp add: ends_with_def)
  have ne: "?qs \<noteq> []" by (rule js_split_nonempty)
  have "last ?qs = []"
    using s(3) by (cases "?u = []") (auto simp: last_js_split ends_with_def)
  with ne have m: "[] \<in> set ?qs" by (metis last_in_set)
  have "js_split CHR '':'' (''::'' @ w) = [] # [] # ?qs @ [[]]"
    by (subst w) (simp add: js_split_snoc_sep)
  then have "trim_parts (js_split CHR '':'' (''::'' @ w)) = [] @ [] # ?qs"
    using ne by (simp add: trim_parts_def first_elem_def last_elem_def shift_def pop_def butlast_append)
  moreover have "compact_split ([] @ [] # ?qs) = [[], ''0'' # ?qs]"
    by (rule compact_split_at) simp
  ultimately have "parsePossibleIpString (''::'' @ w) = [[], ''0'' # ?qs]"
    by (simp only: parsePossibleIpString_eq)
  then have "isValidIp (VString (''::'' @ w)) = isValidCompactIp [[], ''0'' # ?qs]"
    by (rule isValidIp_compact_any)
  with m show ?thesis by (simp add: compact_rejects_empty)
qed

lemma clean_accepted_literal:
  assumes c: "clean s" and v: "isValidIp (VString s) = Inr True"
  shows "ipv6_literal s"
proof (cases "starts_with CHR '':'' s")
  case True
  with c have "starts_with CHR '':'' (tl s)" by (simp add: clean_def)
  with True obtain w where s: "s = ''::'' @ w" by (auto simp: starts_with_iff)
  show ?thesis
  proof (cases "w = []")
    case True
    have "ipv6_literal ''::''" by code_simp
    with True s show ?thesis by simp
  next
    case w: False
    show ?thesis
    proof (cases "ends_with CHR '':'' w")
      case True
      with w have "ends_with CHR '':'' s" by (simp add: s ends_with_def)
      with c have "ends_with CHR '':'' (butlast s)" by (simp add: clean_def)
      with w have "ends_with CHR '':'' (''::'' @ butlast w)" by (simp add: s butlast_append)
      with w True have "isValidIp (VString (''::'' @ w)) = Inr False"
        by (rule rejected_both_markers)
      with v s show ?thesis by simp
    next
      case False
      with w v show ?thesis unfolding s by (intro accepted_leading_marker)
    qed
  qed
next
  case ns: False
  show ?thesis
  proof (cases "ends_with CHR '':'' s")
    case True
    with c have "ends_with CHR '':'' (butlast s)" by (simp add: clean_def)
    with True obtain w where s: "s = w @ ''::''" by (auto simp: ends_with_iff)
    from ns have w: "w \<noteq> []" by (auto simp: s starts_with_def)
    with ns have "\<not> starts_with CHR '':'' w" by (cases w) (auto simp: s starts_with_def)
    with w v show ?thesis unfolding s by (intro accepted_trailing_marker)
  next
    case ne: False
    have "isValidIp (VString []) = Inr False" by code_simp
    with v have "s \<noteq> []" by auto
    then show ?thesis using ns ne v by (rule accepted_inner_marker)
  qed
qed

lemma clean_verdict:
  "clean s \<Longrightarrow> isValidIp (VString s) = Inr True \<longleftrightarrow> ipv6_literal s"
  using clean_accepted_literal literal_accepted by blast

section \<open>The contract of the IPv6 validator\<close>

text \<open>
  C1. The contract is that \<^verbatim>\<open>isValidIp\<close> returns true exactly on the IPv6 literals.
  The code does not keep it: the string \<^verbatim>\<open>:1:2:3:4:5:6:7:8\<close> is not a literal of
  either form, and the validator accepts it. By \<open>clean_verdict\<close> a stray colon at an
  end is the only way in which the code leaves the grammar.
\<close>

theorem isValidIp_accepts_non_literal:
  "isValidIp (VString '':1:2:3:4:5:6:7:8'') = Inr True \<and> \<not> ipv6_literal '':1:2:3:4:5:6:7:8''"
  by code_simp

end
